theory Spec2Isabelle
  imports Main "HOL-Library.Log_Nat"
begin

section \<open>JavaScript numbers\<close>

text \<open>
  Every number of the dashboard is an IEEE-754 binary64 value. A finite value is kept as
  the rational it denotes, next to the two infinities and NaN. The sign of zero is dropped:
  the aggregation code never divides by a value that could be a negative zero and never
  prints one, so the two zeros cannot be told apart by it.
\<close>

datatype jsnum = Num rat | PosInf | NegInf | NaN

text \<open>Rounding a rational to the nearest integer, ties to the even neighbour.\<close>

definition round_even :: "rat \<Rightarrow> int" where
  "round_even x =
     (let f = \<lfloor>x\<rfloor>; d = x - of_int f
      in if d < 1 / 2 then f else if 1 / 2 < d then f + 1 else if even f then f else f + 1)"

text \<open>The binary exponent \<open>\<lfloor>log\<^sub>2 x\<rfloor>\<close> of a positive rational, from the bit lengths of
  its numerator and denominator.\<close>

definition binade :: "rat \<Rightarrow> int" where
  "binade x =
     (let (p, q) = quotient_of x; e = bitlen p - bitlen q
      in if 2 powi e \<le> x then e else e - 1)"

text \<open>The exponent of the last place of the binary64 values around \<open>x\<close>: 53 significant
  bits in the normal range, the fixed spacing \<open>2\<^sup>-\<^sup>1\<^sup>0\<^sup>7\<^sup>4\<close> among the subnormals.\<close>

definition quantum :: "rat \<Rightarrow> int" where
  "quantum x = max (binade x - 52) (- 1074)"

definition round64_pos :: "rat \<Rightarrow> jsnum" where
  "round64_pos x =
     (let q = quantum x; r = of_int (round_even (x / 2 powi q)) * 2 powi q
      in if 2 ^ 1024 \<le> r then PosInf else Num r)"

fun js_neg :: "jsnum \<Rightarrow> jsnum" where
  "js_neg (Num x) = Num (- x)"
| "js_neg PosInf = NegInf"
| "js_neg NegInf = PosInf"
| "js_neg NaN = NaN"

text \<open>roundTiesToEven of an exact result into binary64, overflowing to an infinity.\<close>

definition round64 :: "rat \<Rightarrow> jsnum" where
  "round64 x =
     (if x = 0 then Num 0
      else if 0 < x then round64_pos x
      else js_neg (round64_pos (- x)))"

text \<open>The operators \<open>+\<close>, \<open>-\<close>, \<open>*\<close> and \<open>/\<close> on numbers.\<close>

fun js_add :: "jsnum \<Rightarrow> jsnum \<Rightarrow> jsnum" where
  "js_add NaN _ = NaN"
| "js_add _ NaN = NaN"
| "js_add (Num a) (Num b) = round64 (a + b)"
| "js_add PosInf NegInf = NaN"
| "js_add NegInf PosInf = NaN"
| "js_add PosInf _ = PosInf"
| "js_add _ PosInf = PosInf"
| "js_add NegInf _ = NegInf"
| "js_add _ NegInf = NegInf"

definition js_sub :: "jsnum \<Rightarrow> jsnum \<Rightarrow> jsnum" where
  "js_sub a b = js_add a (js_neg b)"

text \<open>The sign of a number that is not NaN, as \<open>-1\<close>, \<open>0\<close> or \<open>1\<close>.\<close>

fun js_sign :: "jsnum \<Rightarrow> int" where
  "js_sign (Num x) = (if x < 0 then - 1 else if x = 0 then 0 else 1)"
| "js_sign PosInf = 1"
| "js_sign NegInf = - 1"
| "js_sign NaN = 0"

definition signed_inf :: "int \<Rightarrow> jsnum" where
  "signed_inf s = (if s < 0 then NegInf else PosInf)"

fun js_mul :: "jsnum \<Rightarrow> jsnum \<Rightarrow> jsnum" where
  "js_mul NaN _ = NaN"
| "js_mul _ NaN = NaN"
| "js_mul (Num a) (Num b) = round64 (a * b)"
| "js_mul a b =
     (if js_sign a = 0 \<or> js_sign b = 0 then NaN else signed_inf (js_sign a * js_sign b))"

fun js_div :: "jsnum \<Rightarrow> jsnum \<Rightarrow> jsnum" where
  "js_div NaN _ = NaN"
| "js_div _ NaN = NaN"
| "js_div (Num a) (Num b) =
     (if b = 0 then (if a = 0 then NaN else signed_inf (js_sign (Num a)))
      else round64 (a / b))"
| "js_div (Num a) _ = Num 0"
| "js_div a (Num b) = signed_inf (js_sign a * (if b < 0 then - 1 else 1))"
| "js_div _ _ = NaN"

text \<open>The relational operators; every comparison with NaN is false.\<close>

fun js_lt :: "jsnum \<Rightarrow> jsnum \<Rightarrow> bool" where
  "js_lt NaN _ = False"
| "js_lt _ NaN = False"
| "js_lt (Num a) (Num b) = (a < b)"
| "js_lt _ NegInf = False"
| "js_lt NegInf _ = True"
| "js_lt PosInf _ = False"
| "js_lt _ PosInf = True"

fun js_le :: "jsnum \<Rightarrow> jsnum \<Rightarrow> bool" where
  "js_le NaN _ = False"
| "js_le _ NaN = False"
| "js_le a b = (\<not> js_lt b a)"

definition js_ge :: "jsnum \<Rightarrow> jsnum \<Rightarrow> bool" where
  "js_ge a b = js_le b a"

definition js_isNaN :: "jsnum \<Rightarrow> bool" where
  "js_isNaN a = (a = NaN)"

text \<open>\<open>Math.round\<close>: the nearest integer, halves upwards. \<open>Math.min\<close> of two numbers.\<close>

fun js_round :: "jsnum \<Rightarrow> jsnum" where
  "js_round (Num x) = Num (of_int \<lfloor>x + 1 / 2\<rfloor>)"
| "js_round a = a"

definition js_min :: "jsnum \<Rightarrow> jsnum \<Rightarrow> jsnum" where
  "js_min a b = (if a = NaN \<or> b = NaN then NaN else if js_lt b a then b else a)"

text \<open>A counter is a number that only ever grows by one per array element. An array has
  fewer than \<open>2\<^sup>3\<^sup>2\<close> elements, every such count is exact in binary64, and so counters are
  natural numbers; \<open>num\<close> reads one where the code computes with it.\<close>

definition num :: "nat \<Rightarrow> jsnum" where
  "num n = Num (of_nat n)"

section \<open>Rows, strings and the built-in parsers\<close>

text \<open>The CSV decoder is run with a header row: a record maps column names to strings, and
  a column the row does not have reads as \<open>undefined\<close> (here \<open>None\<close>).\<close>

type_synonym row = "string \<rightharpoonup> string"

definition truthy :: "string option \<Rightarrow> bool" where
  "truthy v = (case v of None \<Rightarrow> False | Some s \<Rightarrow> s \<noteq> [])"

text \<open>\<open>String.prototype.includes\<close>.\<close>

fun js_includes :: "string \<Rightarrow> string \<Rightarrow> bool" where
  "js_includes [] p = (p = [])"
| "js_includes (c # cs) p = (take (length p) (c # cs) = p \<or> js_includes cs p)"

text \<open>
  The three library functions the aggregation calls on field text are parameters of the
  model: \<open>getHours\<close> stands for \<open>new Date(s).getHours()\<close>, with \<open>None\<close> for the NaN of an
  invalid date; \<open>parseInt\<close> and \<open>parseFloat\<close> are the global functions of these names.
  Every theorem below that mentions \<open>js\<close> holds for any behaviour of the three.
\<close>

record builtins =
  getHours :: "string \<Rightarrow> nat option"
  parseInt :: "string \<Rightarrow> jsnum"
  parseFloat :: "string \<Rightarrow> jsnum"

text \<open>
  One concrete set of the three, for running the model on sample rows. \<open>isoHours\<close> reads a
  local date-time of the shape \<open>YYYY-MM-DDTHH:mm:ss\<close> (the ECMAScript date-time string
  format, whose out-of-range fields make the date invalid) in a zone whose clock does not
  change on that day, and takes every other text as invalid. \<open>decimalInt\<close> and
  \<open>decimalFloat\<close> read the decimal (and, for \<open>parseInt\<close>, hexadecimal) prefixes that
  \<open>parseInt\<close> and \<open>parseFloat\<close> accept after leading blanks.
\<close>

definition digitVal :: "char \<Rightarrow> nat option" where
  "digitVal c =
     (let n = (of_char c :: nat) in if 48 \<le> n \<and> n \<le> 57 then Some (n - 48) else None)"

definition hexVal :: "char \<Rightarrow> nat option" where
  "hexVal c =
     (let n = (of_char c :: nat)
      in if 48 \<le> n \<and> n \<le> 57 then Some (n - 48)
         else if 65 \<le> n \<and> n \<le> 70 then Some (n - 55)
         else if 97 \<le> n \<and> n \<le> 102 then Some (n - 87)
         else None)"

definition isBlank :: "char \<Rightarrow> bool" where
  "isBlank c = ((of_char c :: nat) \<in> {9, 10, 11, 12, 13, 32})"

definition digitsValue :: "(char \<Rightarrow> nat option) \<Rightarrow> nat \<Rightarrow> string \<Rightarrow> nat" where
  "digitsValue dv base ds = foldl (\<lambda>a c. base * a + the (dv c)) 0 ds"

definition twoDigits :: "char \<Rightarrow> char \<Rightarrow> nat option" where
  "twoDigits a b =
     (case (digitVal a, digitVal b) of (Some x, Some y) \<Rightarrow> Some (10 * x + y) | _ \<Rightarrow> None)"

definition isoHours :: "string \<Rightarrow> nat option" where
  "isoHours s =
     (if length s = 19 \<and> map ((!) s) [4, 7, 10, 13, 16] = ''--T::''
         \<and> list_all (\<lambda>c. digitVal c \<noteq> None) (take 4 s)
      then (case (twoDigits (s ! 5) (s ! 6), twoDigits (s ! 8) (s ! 9),
                  twoDigits (s ! 11) (s ! 12), twoDigits (s ! 14) (s ! 15),
                  twoDigits (s ! 17) (s ! 18)) of
              (Some mo, Some d, Some h, Some mi, Some se) \<Rightarrow>
                if 1 \<le> mo \<and> mo \<le> 12 \<and> 1 \<le> d \<and> d \<le> 31 \<and> h < 24 \<and> mi < 60 \<and> se < 60
                then Some h else None
            | _ \<Rightarrow> None)
      else None)"

definition splitSign :: "string \<Rightarrow> bool \<times> string" where
  "splitSign s =
     (case s of
        c # r \<Rightarrow> if c = CHR ''-'' then (True, r) else if c = CHR ''+'' then (False, r) else (False, s)
      | [] \<Rightarrow> (False, s))"

definition decimalInt :: "string \<Rightarrow> jsnum" where
  "decimalInt s =
     (let (neg, u) = splitSign (dropWhile isBlank s);
          hex = (take 2 u = ''0x'' \<or> take 2 u = ''0X'');
          ds = (if hex then takeWhile (\<lambda>c. hexVal c \<noteq> None) (drop 2 u)
                else takeWhile (\<lambda>c. digitVal c \<noteq> None) u);
          v = (if hex then digitsValue hexVal 16 ds else digitsValue digitVal 10 ds)
      in if ds = [] then NaN else round64 (if neg then - of_nat v else of_nat v))"

definition decimalFloat :: "string \<Rightarrow> jsnum" where
  "decimalFloat s =
     (let (neg, u) = splitSign (dropWhile isBlank s);
          isDigit = (\<lambda>c. digitVal c \<noteq> None);
          ip = takeWhile isDigit u;
          r1 = dropWhile isDigit u;
          fp = (if take 1 r1 = ''.'' then takeWhile isDigit (drop 1 r1) else []);
          r2 = (if take 1 r1 = ''.'' then dropWhile isDigit (drop 1 r1) else r1);
          (eneg, r3) = splitSign (drop 1 r2);
          ep = (if take 1 r2 = ''e'' \<or> take 1 r2 = ''E'' then takeWhile isDigit r3 else []);
          m = (of_nat (digitsValue digitVal 10 (ip @ fp)) :: rat) / 10 ^ length fp;
          e = digitsValue digitVal 10 ep;
          v = (if eneg then m / 10 ^ e else m * 10 ^ e)
      in if take 8 u = ''Infinity'' then (if neg then NegInf else PosInf)
         else if ip = [] \<and> fp = [] then NaN
         else round64 (if neg then - v else v))"

definition sampleBuiltins :: builtins where
  "sampleBuiltins = \<lparr>getHours = isoHours, parseInt = decimalInt, parseFloat = decimalFloat\<rparr>"

section \<open>Arrays and objects\<close>

text \<open>
  \<open>Array.prototype.sort\<close> with a comparison function is stable; a comparison result
  that is NaN counts as zero. The model inserts from the right, which gives the one
  stable order whenever the comparison function is consistent. With an inconsistent one
  (NaN among the keys) the language leaves the order to the engine, and the model shows
  the order of an insertion sort.
\<close>

fun js_insert :: "('a \<Rightarrow> 'a \<Rightarrow> jsnum) \<Rightarrow> 'a \<Rightarrow> 'a list \<Rightarrow> 'a list" where
  "js_insert cmp x [] = [x]"
| "js_insert cmp x (y # ys) =
     (if js_lt (Num 0) (cmp x y) then y # js_insert cmp x ys else x # y # ys)"

definition js_sort :: "('a \<Rightarrow> 'a \<Rightarrow> jsnum) \<Rightarrow> 'a list \<Rightarrow> 'a list" where
  "js_sort cmp xs = foldr (js_insert cmp) xs []"

text \<open>
  An object literal \<open>{}\<close> used as a dictionary: its own properties in creation order.
  Reading a key finds an own property, or one of the members every object inherits from
  \<open>Object.prototype\<close> (all of them functions or objects, hence truthy), or nothing.
\<close>

type_synonym 'v jsobject = "(string \<times> 'v) list"

datatype 'v property = Own 'v | Inherited | Absent

definition objectPrototypeKeys :: "string list" where
  "objectPrototypeKeys =
     [''constructor'', ''hasOwnProperty'', ''isPrototypeOf'', ''propertyIsEnumerable'',
      ''toLocaleString'', ''toString'', ''valueOf'', ''__proto__'',
      ''__defineGetter__'', ''__defineSetter__'', ''__lookupGetter__'', ''__lookupSetter__'']"

definition js_get :: "'v jsobject \<Rightarrow> string \<Rightarrow> 'v property" where
  "js_get obj k =
     (case map_of obj k of
        Some v \<Rightarrow> Own v
      | None \<Rightarrow> if k \<in> set objectPrototypeKeys then Inherited else Absent)"

text \<open>Writing an own property: in place when the key exists, appended otherwise.\<close>

fun js_set :: "'v jsobject \<Rightarrow> string \<Rightarrow> 'v \<Rightarrow> 'v jsobject" where
  "js_set [] k v = [(k, v)]"
| "js_set ((k', v') # obj) k v =
     (if k' = k then (k, v) # obj else (k', v') # js_set obj k v)"

text \<open>
  \<open>Object.values\<close> lists the properties whose key is an array index (a canonical decimal
  numeral below \<open>2\<^sup>3\<^sup>2 - 1\<close>) first, by ascending index, then all others in creation order.
\<close>

definition arrayIndex :: "string \<Rightarrow> nat option" where
  "arrayIndex k =
     (if k \<noteq> [] \<and> list_all (\<lambda>c. digitVal c \<noteq> None) k \<and> (k = ''0'' \<or> hd k \<noteq> CHR ''0'')
         \<and> int (digitsValue digitVal 10 k) < 4294967295
      then Some (digitsValue digitVal 10 k) else None)"

definition object_values :: "'v jsobject \<Rightarrow> 'v list" where
  "object_values obj =
     map snd (sort_key (\<lambda>(k, v). the (arrayIndex k)) (filter (\<lambda>(k, v). arrayIndex k \<noteq> None) obj))
     @ map snd (filter (\<lambda>(k, v). arrayIndex k = None) obj)"

text \<open>A \<open>Set\<close>: its members in insertion order, each once.\<close>

definition set_add :: "'a \<Rightarrow> 'a list \<Rightarrow> 'a list" where
  "set_add x xs = (if x \<in> set xs then xs else xs @ [x])"

text \<open>An exception leaves the function; the only one this code can raise is a
  \<open>TypeError\<close>, on reading a property of \<open>undefined\<close>.\<close>

datatype error = TypeError

fun forEach :: "('s \<Rightarrow> 'a \<Rightarrow> error + 's) \<Rightarrow> 'a list \<Rightarrow> 's \<Rightarrow> error + 's" where
  "forEach f [] s = Inr s"
| "forEach f (x # xs) s = (case f s x of Inl e \<Rightarrow> Inl e | Inr s' \<Rightarrow> forEach f xs s')"

section \<open>Hourly activity aggregator: \<open>processActivityData\<close>\<close>

record hourMetrics =
  m_total :: nat
  m_onTime :: nat
  m_locationAccurate :: nat
  m_delayed :: nat

record bucket =
  hour :: "nat option"
  total :: nat
  onTime :: nat
  locationAccurate :: nat
  delayed :: nat
  complianceRate :: jsnum

text \<open>\<open>item.hour === hour\<close>: NaN is not equal to itself.\<close>

definition strict_eq :: "nat option \<Rightarrow> nat option \<Rightarrow> bool" where
  "strict_eq a b = (case (a, b) of (Some x, Some y) \<Rightarrow> x = y | _ \<Rightarrow> False)"

text \<open>\<open>a.hour - b.hour\<close>.\<close>

definition hour_diff :: "nat option \<Rightarrow> nat option \<Rightarrow> jsnum" where
  "hour_diff a b = (case (a, b) of (Some x, Some y) \<Rightarrow> js_sub (num x) (num y) | _ \<Rightarrow> NaN)"

definition locationAccurateOf :: "builtins \<Rightarrow> row \<Rightarrow> bool" where
  "locationAccurateOf js rw =
     (case rw ''Location Accuracy'' of
        None \<Rightarrow> False
      | Some s \<Rightarrow> s \<noteq> [] \<and> js_le (parseInt js s) (Num 20))"

definition activityMetrics :: "builtins \<Rightarrow> row \<Rightarrow> hourMetrics" where
  "activityMetrics js rw =
     \<lparr>m_total = 1,
      m_onTime = (if rw ''Time Accuracy'' = Some ''On Time'' then 1 else 0),
      m_locationAccurate = (if locationAccurateOf js rw then 1 else 0),
      m_delayed = (case rw ''Time Accuracy'' of
                     None \<Rightarrow> 0
                   | Some s \<Rightarrow> if js_includes s ''Delay'' then 1 else 0)\<rparr>"

text \<open>\<open>acc.find(item => item.hour === hour)\<close> followed by the four updates of the found
  bucket; \<open>None\<close> when no bucket has this hour. The rate of the found bucket is not touched.\<close>

fun addToExisting :: "nat option \<Rightarrow> hourMetrics \<Rightarrow> bucket list \<Rightarrow> bucket list option" where
  "addToExisting h m [] = None"
| "addToExisting h m (b # bs) =
     (if strict_eq (hour b) h
      then Some (b\<lparr>total := total b + m_total m,
                    onTime := onTime b + m_onTime m,
                    locationAccurate := locationAccurate b + m_locationAccurate m,
                    delayed := delayed b + m_delayed m\<rparr> # bs)
      else map_option ((#) b) (addToExisting h m bs))"

definition newBucket :: "nat option \<Rightarrow> hourMetrics \<Rightarrow> bucket" where
  "newBucket h m =
     \<lparr>hour = h, total = m_total m, onTime = m_onTime m,
      locationAccurate = m_locationAccurate m, delayed = m_delayed m,
      complianceRate =
        js_round (js_mul (js_div (num (m_onTime m + m_locationAccurate m)) (num (2 * m_total m)))
                         (Num 100))\<rparr>"

definition hourlyStep :: "builtins \<Rightarrow> bucket list \<Rightarrow> row \<Rightarrow> bucket list" where
  "hourlyStep js acc rw =
     (case rw ''Date/Time'' of
        None \<Rightarrow> acc
      | Some s \<Rightarrow>
          if s = [] then acc
          else let h = getHours js s; m = activityMetrics js rw
               in case addToExisting h m acc of
                    Some acc' \<Rightarrow> acc'
                  | None \<Rightarrow> acc @ [newBucket h m])"

definition hourlyData :: "builtins \<Rightarrow> row list \<Rightarrow> bucket list" where
  "hourlyData js data = foldl (hourlyStep js) [] data"

definition processActivityData :: "builtins \<Rightarrow> row list \<Rightarrow> bucket list" where
  "processActivityData js data =
     js_sort (\<lambda>a b. hour_diff (hour a) (hour b)) (hourlyData js data)"

section \<open>Guard aggregator: \<open>processGuardData\<close>\<close>

text \<open>The object kept per guard while folding; \<open>shifts_total\<close> is \<open>shifts.total\<close> and so
  on. \<open>coverage\<close> is the \<open>Set\<close> of post names, among which \<open>undefined\<close> can occur.\<close>

record guard =
  guard_id :: string
  name :: string
  shifts_total :: nat
  shifts_onTime :: nat
  shifts_late :: nat
  activities_total :: nat
  activities_onTime :: nat
  activities_locationAccurate :: nat
  coverage :: "string option list"
  shiftHours :: jsnum

record guardProfile = guard +
  attendanceRate :: jsnum
  activityComplianceRate :: jsnum
  coverageCount :: nat
  performanceScore :: jsnum

definition newGuard :: "string \<Rightarrow> string \<Rightarrow> guard" where
  "newGuard guardId fullName =
     \<lparr>guard_id = guardId, name = fullName,
      shifts_total = 0, shifts_onTime = 0, shifts_late = 0,
      activities_total = 0, activities_onTime = 0, activities_locationAccurate = 0,
      coverage = [], shiftHours = Num 0\<rparr>"

text \<open>\<open>if (record['Duty Hours']) { const hours = parseFloat(...); if (!isNaN(hours)) acc += hours }\<close>\<close>

definition addDutyHours :: "builtins \<Rightarrow> row \<Rightarrow> jsnum \<Rightarrow> jsnum" where
  "addDutyHours js r acc =
     (case r ''Duty Hours'' of
        None \<Rightarrow> acc
      | Some s \<Rightarrow>
          if s = [] then acc
          else let hours = parseFloat js s
               in if js_isNaN hours then acc else js_add acc hours)"

definition recordShift :: "builtins \<Rightarrow> row \<Rightarrow> guard \<Rightarrow> guard" where
  "recordShift js r g =
     g\<lparr>shifts_total := shifts_total g + 1,
       shifts_onTime := (if r ''Late Hours'' = Some ''On-time''
                         then shifts_onTime g + 1 else shifts_onTime g),
       shifts_late := (if r ''Late Hours'' = Some ''On-time''
                       then shifts_late g else shifts_late g + 1),
       coverage := set_add (r ''Post Name'') (coverage g),
       shiftHours := addDutyHours js r (shiftHours g)\<rparr>"

text \<open>
  One attendance record. When the service number names a member of \<open>Object.prototype\<close>,
  \<open>guardMetrics[guardId]\<close> is that member: no profile is created, and
  \<open>guardMetrics[guardId].shifts.total++\<close> reads \<open>total\<close> of \<open>undefined\<close>.
\<close>

definition attendanceStep :: "builtins \<Rightarrow> guard jsobject \<Rightarrow> row \<Rightarrow> error + guard jsobject" where
  "attendanceStep js guardMetrics r =
     (case (r ''Full Name'', r ''Service Number'') of
        (Some fullName, Some guardId) \<Rightarrow>
          if fullName = [] \<or> guardId = [] then Inr guardMetrics
          else (case js_get guardMetrics guardId of
                  Inherited \<Rightarrow> Inl TypeError
                | Absent \<Rightarrow>
                    Inr (js_set guardMetrics guardId (recordShift js r (newGuard guardId fullName)))
                | Own g \<Rightarrow> Inr (js_set guardMetrics guardId (recordShift js r g)))
      | _ \<Rightarrow> Inr guardMetrics)"

definition guardLocationAccurate :: "builtins \<Rightarrow> row \<Rightarrow> bool" where
  "guardLocationAccurate js r =
     (case r ''Location Accuracy'' of
        None \<Rightarrow> False
      | Some s \<Rightarrow>
          s \<noteq> [] \<and> (let accuracy = parseInt js s
                     in \<not> js_isNaN accuracy \<and> js_le accuracy (Num 20)))"

definition recordActivity :: "builtins \<Rightarrow> row \<Rightarrow> guard \<Rightarrow> guard" where
  "recordActivity js r g =
     g\<lparr>activities_total := activities_total g + 1,
       activities_onTime := (if r ''Time Accuracy'' = Some ''On Time''
                             then activities_onTime g + 1 else activities_onTime g),
       activities_locationAccurate := (if guardLocationAccurate js r
                                       then activities_locationAccurate g + 1
                                       else activities_locationAccurate g)\<rparr>"

text \<open>
  One activity record: \<open>if (!guardId || !guardMetrics[guardId]) return\<close>. An inherited
  member passes this test, and \<open>guard.activities.total++\<close> then reads \<open>total\<close> of
  \<open>undefined\<close>.
\<close>

definition activityStep :: "builtins \<Rightarrow> guard jsobject \<Rightarrow> row \<Rightarrow> error + guard jsobject" where
  "activityStep js guardMetrics r =
     (case r ''Service Number'' of
        None \<Rightarrow> Inr guardMetrics
      | Some guardId \<Rightarrow>
          if guardId = [] then Inr guardMetrics
          else (case js_get guardMetrics guardId of
                  Absent \<Rightarrow> Inr guardMetrics
                | Inherited \<Rightarrow> Inl TypeError
                | Own g \<Rightarrow> Inr (js_set guardMetrics guardId (recordActivity js r g))))"

definition attendanceScore :: "nat \<Rightarrow> nat \<Rightarrow> jsnum" where
  "attendanceScore onTimeShifts totalShifts =
     (if totalShifts > 0 then js_mul (js_div (num onTimeShifts) (num totalShifts)) (Num 30)
      else Num 0)"

definition activityScore :: "nat \<Rightarrow> nat \<Rightarrow> nat \<Rightarrow> jsnum" where
  "activityScore onTimeActs accurateActs totalActs =
     (if totalActs > 0
      then js_mul (js_div (num (onTimeActs + accurateActs)) (num (2 * totalActs))) (Num 40)
      else Num 0)"

definition coverageScore :: "nat \<Rightarrow> jsnum" where
  "coverageScore n = js_min (js_mul (js_div (num n) (Num 3)) (Num 30)) (Num 30)"

definition guardProfileOf :: "guard \<Rightarrow> guardProfile" where
  "guardProfileOf g =
     \<lparr>guard_id = guard_id g, name = name g,
      shifts_total = shifts_total g, shifts_onTime = shifts_onTime g,
      shifts_late = shifts_late g,
      activities_total = activities_total g, activities_onTime = activities_onTime g,
      activities_locationAccurate = activities_locationAccurate g,
      coverage = coverage g, shiftHours = shiftHours g,
      attendanceRate =
        (if shifts_total g > 0
         then js_round (js_mul (js_div (num (shifts_onTime g)) (num (shifts_total g))) (Num 100))
         else Num 0),
      activityComplianceRate =
        (if activities_total g > 0
         then js_round (js_mul (js_div (num (activities_onTime g + activities_locationAccurate g))
                                       (num (2 * activities_total g))) (Num 100))
         else Num 0),
      coverageCount = length (coverage g),
      performanceScore =
        js_round (js_add (js_add (attendanceScore (shifts_onTime g) (shifts_total g))
                                 (activityScore (activities_onTime g)
                                    (activities_locationAccurate g) (activities_total g)))
                         (coverageScore (length (coverage g))))\<rparr>"

definition seedGuards :: "builtins \<Rightarrow> row list \<Rightarrow> error + guard jsobject" where
  "seedGuards js attendanceData = forEach (attendanceStep js) attendanceData []"

definition processGuardData :: "builtins \<Rightarrow> row list \<Rightarrow> row list \<Rightarrow> error + guardProfile list" where
  "processGuardData js activityData attendanceData =
     (case seedGuards js attendanceData of
        Inl e \<Rightarrow> Inl e
      | Inr seeded \<Rightarrow>
          (case forEach (activityStep js) activityData seeded of
             Inl e \<Rightarrow> Inl e
           | Inr guardMetrics \<Rightarrow>
               Inr (js_sort (\<lambda>a b. js_sub (performanceScore b) (performanceScore a))
                            (map guardProfileOf (object_values guardMetrics)))))"

section \<open>Location aggregator: \<open>processLocationCoverage\<close>\<close>

text \<open>The object kept per post; \<open>lshifts_total\<close> is \<open>shifts.total\<close> of a location and so on,
  \<open>guards\<close> the \<open>Set\<close> of guard names, \<open>lshiftHours\<close> the \<open>shiftHours\<close> of a location.\<close>

record locationAcc =
  location :: string
  lshifts_total :: nat
  lshifts_covered :: nat
  lshifts_onTime :: nat
  guards :: "string list"
  lshiftHours :: jsnum

text \<open>\<open>guardCount\<close> is read as \<open>location.guards.length\<close> while \<open>location.guards\<close> is still
  the \<open>Set\<close>, which has a \<open>size\<close> and no \<open>length\<close>: the field can hold \<open>undefined\<close>.\<close>

record locationProfile = locationAcc +
  coverageRate :: jsnum
  punctualityRate :: jsnum
  guardCount :: "nat option"
  averageShiftHours :: jsnum

definition newLocation :: "string \<Rightarrow> locationAcc" where
  "newLocation l =
     \<lparr>location = l, lshifts_total = 0, lshifts_covered = 0, lshifts_onTime = 0,
      guards = [], lshiftHours = Num 0\<rparr>"

definition recordPost :: "builtins \<Rightarrow> row \<Rightarrow> locationAcc \<Rightarrow> locationAcc" where
  "recordPost js r m =
     (case r ''Full Name'' of
        None \<Rightarrow> m\<lparr>lshifts_total := lshifts_total m + 1\<rparr>
      | Some fullName \<Rightarrow>
          if fullName = [] then m\<lparr>lshifts_total := lshifts_total m + 1\<rparr>
          else m\<lparr>lshifts_total := lshifts_total m + 1,
                 lshifts_covered := lshifts_covered m + 1,
                 guards := set_add fullName (guards m),
                 lshifts_onTime := (if r ''Late Hours'' = Some ''On-time''
                                    then lshifts_onTime m + 1 else lshifts_onTime m),
                 lshiftHours := addDutyHours js r (lshiftHours m)\<rparr>)"

text \<open>One attendance record. A post named like a member of \<open>Object.prototype\<close> finds that
  member in \<open>locationMetrics[location]\<close>, and \<open>metrics.shifts.total++\<close> reads \<open>total\<close> of
  \<open>undefined\<close>.\<close>

definition locationStep ::
  "builtins \<Rightarrow> locationAcc jsobject \<Rightarrow> row \<Rightarrow> error + locationAcc jsobject" where
  "locationStep js locationMetrics r =
     (case r ''Post Name'' of
        None \<Rightarrow> Inr locationMetrics
      | Some l \<Rightarrow>
          if l = [] then Inr locationMetrics
          else (case js_get locationMetrics l of
                  Inherited \<Rightarrow> Inl TypeError
                | Absent \<Rightarrow> Inr (js_set locationMetrics l (recordPost js r (newLocation l)))
                | Own m \<Rightarrow> Inr (js_set locationMetrics l (recordPost js r m))))"

definition locationProfileOf :: "locationAcc \<Rightarrow> locationProfile" where
  "locationProfileOf m =
     \<lparr>location = location m, lshifts_total = lshifts_total m,
      lshifts_covered = lshifts_covered m, lshifts_onTime = lshifts_onTime m,
      guards = guards m, lshiftHours = lshiftHours m,
      coverageRate =
        js_round (js_mul (js_div (num (lshifts_covered m)) (num (lshifts_total m))) (Num 100)),
      punctualityRate =
        (if lshifts_covered m > 0
         then js_round (js_mul (js_div (num (lshifts_onTime m)) (num (lshifts_covered m)))
                               (Num 100))
         else Num 0),
      guardCount = None,
      averageShiftHours =
        (if lshifts_covered m > 0
         then js_div (js_round (js_mul (js_div (lshiftHours m) (num (lshifts_covered m)))
                                       (Num 10))) (Num 10)
         else Num 0)\<rparr>"

definition groupLocations :: "builtins \<Rightarrow> row list \<Rightarrow> error + locationAcc jsobject" where
  "groupLocations js data = forEach (locationStep js) data []"

definition processLocationCoverage :: "builtins \<Rightarrow> row list \<Rightarrow> error + locationProfile list" where
  "processLocationCoverage js data =
     (case groupLocations js data of
        Inl e \<Rightarrow> Inl e
      | Inr locationMetrics \<Rightarrow>
          Inr (js_sort (\<lambda>a b. js_sub (coverageRate b) (coverageRate a))
                       (map locationProfileOf (object_values locationMetrics))))"

section \<open>Compliance evaluator: \<open>calculateComplianceMetrics\<close>\<close>

record overallMetrics =
  totalChecks :: nat
  passedChecks :: nat

record locationCompliance =
  lc_location :: string
  lc_coverageCompliance :: nat
  lc_punctualityCompliance :: nat
  lc_staffingCompliance :: nat
  lc_complianceScore :: jsnum

record guardCompliance =
  gc_name :: string
  gc_attendanceCompliance :: nat
  gc_activityCompliance :: nat
  gc_coverageCompliance :: nat
  gc_complianceScore :: jsnum

record complianceMetrics =
  overall :: jsnum
  byLocation :: "locationCompliance list"
  byGuard :: "guardCompliance list"

text \<open>\<open>cond ? 1 : 0\<close>\<close>

definition flag :: "bool \<Rightarrow> nat" where
  "flag c = (if c then 1 else 0)"

definition complianceScore :: "nat \<Rightarrow> jsnum" where
  "complianceScore passed = js_round (js_mul (js_div (num passed) (Num 3)) (Num 100))"

text \<open>\<open>array.map\<close> with a callback that also updates the shared counters.\<close>

fun map_with :: "('s \<Rightarrow> 'a \<Rightarrow> 's \<times> 'b) \<Rightarrow> 's \<Rightarrow> 'a list \<Rightarrow> 's \<times> 'b list" where
  "map_with f s [] = (s, [])"
| "map_with f s (x # xs) =
     (case f s x of (s1, y) \<Rightarrow> (case map_with f s1 xs of (s2, ys) \<Rightarrow> (s2, y # ys)))"

definition checkLocation :: "overallMetrics \<Rightarrow> locationProfile \<Rightarrow> overallMetrics \<times> locationCompliance" where
  "checkLocation om l =
     (let c = flag (js_ge (coverageRate l) (Num 95));
          p = flag (js_ge (punctualityRate l) (Num 90));
          s = flag (case guardCount l of None \<Rightarrow> False | Some n \<Rightarrow> 2 \<le> n)
      in (\<lparr>totalChecks = totalChecks om + 3, passedChecks = passedChecks om + (c + p + s)\<rparr>,
          \<lparr>lc_location = location l, lc_coverageCompliance = c,
           lc_punctualityCompliance = p, lc_staffingCompliance = s,
           lc_complianceScore = complianceScore (c + p + s)\<rparr>))"

definition checkGuard :: "overallMetrics \<Rightarrow> guardProfile \<Rightarrow> overallMetrics \<times> guardCompliance" where
  "checkGuard om g =
     (let a = flag (js_ge (attendanceRate g) (Num 95));
          b = flag (js_ge (activityComplianceRate g) (Num 90));
          c = flag (1 \<le> coverageCount g)
      in (\<lparr>totalChecks = totalChecks om + 3, passedChecks = passedChecks om + (a + b + c)\<rparr>,
          \<lparr>gc_name = name g, gc_attendanceCompliance = a, gc_activityCompliance = b,
           gc_coverageCompliance = c, gc_complianceScore = complianceScore (a + b + c)\<rparr>))"

definition calculateComplianceMetrics ::
  "bucket list \<Rightarrow> locationProfile list \<Rightarrow> guardProfile list \<Rightarrow> complianceMetrics" where
  "calculateComplianceMetrics activities locations guardList =
     (case map_with checkLocation \<lparr>totalChecks = 0, passedChecks = 0\<rparr> locations of
        (om1, locationCompliance) \<Rightarrow>
          (case map_with checkGuard om1 guardList of
             (om2, guardCompliance) \<Rightarrow>
               \<lparr>overall = js_round (js_mul (js_div (num (passedChecks om2)) (num (totalChecks om2)))
                                          (Num 100)),
                byLocation = locationCompliance,
                byGuard = guardCompliance\<rparr>))"

section \<open>The reload of one day: the computing part of \<open>loadData\<close>\<close>

record dashboard =
  activityData :: "bucket list"
  locationCoverage :: "locationProfile list"
  guardStats :: "guardProfile list"
  compliance :: complianceMetrics

text \<open>\<open>rows.filter(record => record[column]?.includes(selectedDate))\<close>\<close>

definition dateFilter :: "string \<Rightarrow> string \<Rightarrow> row list \<Rightarrow> row list" where
  "dateFilter column selectedDate rows =
     filter (\<lambda>r. case r column of None \<Rightarrow> False | Some s \<Rightarrow> js_includes s selectedDate) rows"

definition loadData :: "builtins \<Rightarrow> string \<Rightarrow> row list \<Rightarrow> row list \<Rightarrow> error + dashboard" where
  "loadData js selectedDate activityRows attendanceRows =
     (let filteredActivityData = dateFilter ''Date/Time'' selectedDate activityRows;
          filteredAttendanceData = dateFilter ''Login Date'' selectedDate attendanceRows;
          processedActivityData = processActivityData js filteredActivityData
      in case processLocationCoverage js filteredAttendanceData of
           Inl e \<Rightarrow> Inl e
         | Inr locations \<Rightarrow>
             (case processGuardData js filteredActivityData filteredAttendanceData of
                Inl e \<Rightarrow> Inl e
              | Inr guardStatistics \<Rightarrow>
                  Inr \<lparr>activityData = processedActivityData,
                       locationCoverage = locations,
                       guardStats = guardStatistics,
                       compliance = calculateComplianceMetrics processedActivityData
                                      locations guardStatistics\<rparr>))"

section \<open>Reference descriptions of the aggregations\<close>

text \<open>
  The definitions of this section are not translated from the code. They say, in terms of
  the input rows alone, what the folds above are expected to compute, and the theorems
  compare the two.
\<close>

subsection \<open>Grouping under a key\<close>

text \<open>The common shape of the two grouping loops: look the key up, create the entry when
  nothing is found, update it.\<close>

definition groupStep ::
  "(row \<Rightarrow> string option) \<Rightarrow> (string \<Rightarrow> row \<Rightarrow> 'v) \<Rightarrow> (row \<Rightarrow> 'v \<Rightarrow> 'v)
     \<Rightarrow> 'v jsobject \<Rightarrow> row \<Rightarrow> error + 'v jsobject" where
  "groupStep key mk upd obj r =
     (case key r of
        None \<Rightarrow> Inr obj
      | Some k \<Rightarrow>
          (case js_get obj k of
             Inherited \<Rightarrow> Inl TypeError
           | Absent \<Rightarrow> Inr (js_set obj k (upd r (mk k r)))
           | Own v \<Rightarrow> Inr (js_set obj k (upd r v))))"

text \<open>The rows of one key, the value they build up in order, and the keys in the order
  of their first rows.\<close>

definition rowsOf :: "(row \<Rightarrow> string option) \<Rightarrow> string \<Rightarrow> row list \<Rightarrow> row list" where
  "rowsOf key k data = filter (\<lambda>r. key r = Some k) data"

definition grouped ::
  "(row \<Rightarrow> string option) \<Rightarrow> (string \<Rightarrow> row \<Rightarrow> 'v) \<Rightarrow> (row \<Rightarrow> 'v \<Rightarrow> 'v)
     \<Rightarrow> string \<Rightarrow> row list \<Rightarrow> 'v option" where
  "grouped key mk upd k data =
     (case rowsOf key k data of
        [] \<Rightarrow> None
      | r0 # rs \<Rightarrow> Some (foldl (\<lambda>v r. upd r v) (mk k r0) (r0 # rs)))"

definition firstKeys :: "(row \<Rightarrow> string option) \<Rightarrow> row list \<Rightarrow> string list" where
  "firstKeys key data =
     foldl (\<lambda>ks r. case key r of None \<Rightarrow> ks | Some k \<Rightarrow> set_add k ks) [] data"

text \<open>The key of an attendance row in the location aggregator and in the first pass of the
  guard aggregator, and of an activity row in its second pass.\<close>

definition postKey :: "row \<Rightarrow> string option" where
  "postKey r = (case r ''Post Name'' of None \<Rightarrow> None | Some l \<Rightarrow> if l = [] then None else Some l)"

definition guardKey :: "row \<Rightarrow> string option" where
  "guardKey r =
     (case (r ''Full Name'', r ''Service Number'') of
        (Some fullName, Some guardId) \<Rightarrow>
          if fullName = [] \<or> guardId = [] then None else Some guardId
      | _ \<Rightarrow> None)"

definition activityKey :: "row \<Rightarrow> string option" where
  "activityKey r =
     (case r ''Service Number'' of None \<Rightarrow> None | Some g \<Rightarrow> if g = [] then None else Some g)"

subsection \<open>Per location\<close>

text \<open>The attendance rows of one post, those among some rows that carry a guard's display
  name, those that are on time, the duty hours of some rows summed in order, and the guard
  names of some rows in the order of their first rows.\<close>

definition atPost :: "string \<Rightarrow> row list \<Rightarrow> row list" where
  "atPost l data = filter (\<lambda>r. r ''Post Name'' = Some l) data"

definition staffed :: "row list \<Rightarrow> row list" where
  "staffed rows = filter (\<lambda>r. truthy (r ''Full Name'')) rows"

definition onTimeRows :: "row list \<Rightarrow> row list" where
  "onTimeRows rows = filter (\<lambda>r. r ''Late Hours'' = Some ''On-time'') rows"

definition dutyHours :: "builtins \<Rightarrow> jsnum \<Rightarrow> row list \<Rightarrow> jsnum" where
  "dutyHours js start rows = foldl (\<lambda>acc r. addDutyHours js r acc) start rows"

definition guardNames :: "string list \<Rightarrow> row list \<Rightarrow> string list" where
  "guardNames start rows = foldl (\<lambda>gs r. set_add (the (r ''Full Name'')) gs) start rows"

definition locationTally :: "builtins \<Rightarrow> row list \<Rightarrow> string \<Rightarrow> locationAcc" where
  "locationTally js data l =
     \<lparr>location = l,
      lshifts_total = length (atPost l data),
      lshifts_covered = length (staffed (atPost l data)),
      lshifts_onTime = length (onTimeRows (staffed (atPost l data))),
      guards = guardNames [] (staffed (atPost l data)),
      lshiftHours = dutyHours js (Num 0) (staffed (atPost l data))\<rparr>"

subsection \<open>Per guard\<close>

text \<open>The rows that are not on time, the posts of some rows in the order of their first
  rows, the activity rows that are on time, and the profile of one guard before scoring, from
  the attendance rows and the activity rows of the guard.\<close>

definition lateRows :: "row list \<Rightarrow> row list" where
  "lateRows rows = filter (\<lambda>r. r ''Late Hours'' \<noteq> Some ''On-time'') rows"

definition postsCovered :: "string option list \<Rightarrow> row list \<Rightarrow> string option list" where
  "postsCovered start rows = foldl (\<lambda>c r. set_add (r ''Post Name'') c) start rows"

definition onTimeActivities :: "row list \<Rightarrow> row list" where
  "onTimeActivities rows = filter (\<lambda>r. r ''Time Accuracy'' = Some ''On Time'') rows"

definition guardTally :: "builtins \<Rightarrow> row list \<Rightarrow> row list \<Rightarrow> string \<Rightarrow> guard" where
  "guardTally js acts atts g =
     \<lparr>guard_id = g,
      name = the (hd (rowsOf guardKey g atts) ''Full Name''),
      shifts_total = length (rowsOf guardKey g atts),
      shifts_onTime = length (onTimeRows (rowsOf guardKey g atts)),
      shifts_late = length (lateRows (rowsOf guardKey g atts)),
      activities_total = length (rowsOf activityKey g acts),
      activities_onTime = length (onTimeActivities (rowsOf activityKey g acts)),
      activities_locationAccurate =
        length (filter (guardLocationAccurate js) (rowsOf activityKey g acts)),
      coverage = postsCovered [] (rowsOf guardKey g atts),
      shiftHours = dutyHours js (Num 0) (rowsOf guardKey g atts)\<rparr>"

text \<open>An activity row belongs to a guard that the attendance rows have seeded.\<close>

definition ofSeededGuard :: "row list \<Rightarrow> row \<Rightarrow> bool" where
  "ofSeededGuard atts r = (\<exists>k \<in> set (firstKeys guardKey atts). activityKey r = Some k)"

subsection \<open>Per hour\<close>

text \<open>An activity row has a timestamp; the hour that the date parser reads from it; the
  rows of one hour; a row counts as delayed; and the bucket expected for the rows of one
  hour, whose rate is the rate that its first row alone would give.\<close>

definition timed :: "row \<Rightarrow> bool" where
  "timed r = truthy (r ''Date/Time'')"

definition hourOf :: "builtins \<Rightarrow> row \<Rightarrow> nat option" where
  "hourOf js r = getHours js (the (r ''Date/Time''))"

definition rowsAtHour :: "builtins \<Rightarrow> nat \<Rightarrow> row list \<Rightarrow> row list" where
  "rowsAtHour js h data = filter (\<lambda>r. timed r \<and> hourOf js r = Some h) data"

definition delayedRow :: "row \<Rightarrow> bool" where
  "delayedRow r = (case r ''Time Accuracy'' of None \<Rightarrow> False | Some s \<Rightarrow> js_includes s ''Delay'')"

definition hourTally :: "builtins \<Rightarrow> nat \<Rightarrow> row list \<Rightarrow> bucket" where
  "hourTally js h rows =
     \<lparr>hour = Some h,
      total = length rows,
      onTime = length (onTimeActivities rows),
      locationAccurate = length (filter (locationAccurateOf js) rows),
      delayed = length (filter delayedRow rows),
      complianceRate = complianceRate (newBucket (Some h) (activityMetrics js (hd rows)))\<rparr>"

subsection \<open>The formulas of the specification, in exact arithmetic\<close>

definition spec_round :: "rat \<Rightarrow> int" where
  "spec_round x = \<lfloor>x + 1 / 2\<rfloor>"

definition spec_complianceRate :: "nat \<Rightarrow> nat \<Rightarrow> nat \<Rightarrow> int" where
  "spec_complianceRate onTimeCount accurateCount totalCount =
     spec_round (100 * (of_nat onTimeCount + of_nat accurateCount) / (2 * of_nat totalCount))"

definition spec_punctualityRate :: "nat \<Rightarrow> nat \<Rightarrow> int" where
  "spec_punctualityRate onTimeCount coveredCount =
     (if coveredCount > 0 then spec_round (100 * of_nat onTimeCount / of_nat coveredCount) else 0)"

definition spec_performanceScore :: "nat \<Rightarrow> nat \<Rightarrow> nat \<Rightarrow> nat \<Rightarrow> nat \<Rightarrow> nat \<Rightarrow> int" where
  "spec_performanceScore onTimeShifts totalShifts onTimeActs accurateActs totalActs places =
     spec_round
       ((if totalShifts = 0 then 0 else 30 * of_nat onTimeShifts / of_nat totalShifts)
        + (if totalActs = 0 then 0
           else 40 * (of_nat onTimeActs + of_nat accurateActs) / (2 * of_nat totalActs))
        + min 30 (30 * of_nat places / 3))"

section \<open>Sample rows\<close>

definition shiftRow :: "string \<Rightarrow> string \<Rightarrow> string \<Rightarrow> row" where
  "shiftRow g post late =
     [''Service Number'' \<mapsto> g, ''Full Name'' \<mapsto> g, ''Post Name'' \<mapsto> post,
      ''Late Hours'' \<mapsto> late]"

definition postOnlyRow :: "string \<Rightarrow> row" where
  "postOnlyRow post = [''Post Name'' \<mapsto> post]"

definition activityRow :: "string \<Rightarrow> string \<Rightarrow> string \<Rightarrow> row" where
  "activityRow g dateTime timeAccuracy =
     [''Service Number'' \<mapsto> g, ''Date/Time'' \<mapsto> dateTime, ''Time Accuracy'' \<mapsto> timeAccuracy]"

text \<open>The two attendance examples of the specification.\<close>

definition exampleShifts :: "row list" where
  "exampleShifts = [shiftRow ''G1'' ''Gate A'' ''On-time'', shiftRow ''G1'' ''Gate B'' ''Late'']"

definition exampleGateA :: "row list" where
  "exampleGateA = [shiftRow ''G1'' ''Gate A'' ''On-time'', postOnlyRow ''Gate A'']"

text \<open>Forty shifts at one post, twenty-three of them on time; and one guard with
  twenty-eight shifts at one post, fifteen on time, and fourteen activities, one on time.\<close>

definition fortyShifts :: "row list" where
  "fortyShifts =
     replicate 23 (shiftRow ''G1'' ''Gate A'' ''On-time'')
     @ replicate 17 (shiftRow ''G1'' ''Gate A'' ''Late'')"

definition busyShifts :: "row list" where
  "busyShifts =
     replicate 15 (shiftRow ''G1'' ''Gate A'' ''On-time'')
     @ replicate 13 (shiftRow ''G1'' ''Gate A'' ''Late'')"

definition busyActivities :: "row list" where
  "busyActivities =
     activityRow ''G1'' ''2024-10-19T09:15:00'' ''On Time''
     # replicate 13 (activityRow ''G1'' ''2024-10-19T09:45:00'' ''Delayed'')"

text \<open>What the guard aggregator is expected to hold and to return for \<open>exampleShifts\<close>, and
  the location aggregator for \<open>exampleGateA\<close>.\<close>

definition exampleGuard :: guard where
  "exampleGuard =
     \<lparr>guard_id = ''G1'', name = ''G1'', shifts_total = 2, shifts_onTime = 1, shifts_late = 1,
      activities_total = 0, activities_onTime = 0, activities_locationAccurate = 0,
      coverage = [Some ''Gate A'', Some ''Gate B''], shiftHours = Num 0\<rparr>"

definition exampleGuardProfile :: guardProfile where
  "exampleGuardProfile =
     \<lparr>guard_id = ''G1'', name = ''G1'', shifts_total = 2, shifts_onTime = 1, shifts_late = 1,
      activities_total = 0, activities_onTime = 0, activities_locationAccurate = 0,
      coverage = [Some ''Gate A'', Some ''Gate B''], shiftHours = Num 0,
      attendanceRate = Num 50, activityComplianceRate = Num 0,
      coverageCount = 2, performanceScore = Num 35\<rparr>"

definition exampleGateAProfile :: locationProfile where
  "exampleGateAProfile =
     \<lparr>location = ''Gate A'', lshifts_total = 2, lshifts_covered = 1, lshifts_onTime = 1,
      guards = [''G1''], lshiftHours = Num 0,
      coverageRate = Num 50, punctualityRate = Num 100,
      guardCount = None, averageShiftHours = Num 0\<rparr>"

text \<open>Two activities in the ninth hour, the first on time and the second delayed; an
  activity whose timestamp has the hour field 25, which no date has; and an activity of a
  guard whose service number reads \<open>constructor\<close>.\<close>

definition onTimeAtNine :: row where
  "onTimeAtNine = activityRow ''G1'' ''2024-10-19T09:15:00'' ''On Time''"

definition delayedAtNine :: row where
  "delayedAtNine = activityRow ''G1'' ''2024-10-19T09:45:00'' ''Delayed''"

definition invalidTime :: row where
  "invalidTime = activityRow ''G1'' ''2024-10-19T25:00:00'' ''On Time''"

definition strangerActivity :: row where
  "strangerActivity = activityRow ''constructor'' ''2024-10-19T09:15:00'' ''On Time''"

section \<open>Properties of the number model\<close>

text \<open>The exponent computed from the bit lengths is the binary exponent.\<close>

lemma binade_bounds:
  assumes "0 < x"
  shows "2 powi binade x \<le> x" and "x < 2 powi (binade x + 1)"
proof -
  obtain p q where pq: "quotient_of x = (p, q)" by (cases "quotient_of x")
  have qpos: "0 < q" using pq by (rule quotient_of_denom_pos)
  have xeq: "x = of_int p / of_int q" using pq by (rule quotient_of_div)
  have ppos: "0 < p"
    using assms qpos unfolding xeq by (simp add: zero_less_divide_iff)
  define bp where "bp = bitlen p"
  define bq where "bq = bitlen q"
  have bp1: "1 \<le> bp" and bq1: "1 \<le> bq"
    using ppos qpos by (simp_all add: bp_def bq_def bitlen_alt_def)
  have pb: "2 ^ nat (bp - 1) \<le> p" "p < 2 ^ nat bp"
    using bitlen_bounds[OF ppos] by (simp_all add: bp_def)
  have qb: "2 ^ nat (bq - 1) \<le> q" "q < 2 ^ nat bq"
    using bitlen_bounds[OF qpos] by (simp_all add: bq_def)
  have pr: "(2::rat) powi (bp - 1) \<le> of_int p" "of_int p < (2::rat) powi bp"
  proof -
    have "(of_int (2 ^ nat (bp - 1)) :: rat) \<le> of_int p" using pb(1) by (simp only: of_int_le_iff)
    then show "(2::rat) powi (bp - 1) \<le> of_int p" using bp1 by (simp add: power_int_def)
    have "(of_int p :: rat) < of_int (2 ^ nat bp)" using pb(2) by (simp only: of_int_less_iff)
    then show "of_int p < (2::rat) powi bp" using bp1 by (simp add: power_int_def)
  qed
  have qr: "(2::rat) powi (bq - 1) \<le> of_int q" "of_int q < (2::rat) powi bq"
  proof -
    have "(of_int (2 ^ nat (bq - 1)) :: rat) \<le> of_int q" using qb(1) by (simp only: of_int_le_iff)
    then show "(2::rat) powi (bq - 1) \<le> of_int q" using bq1 by (simp add: power_int_def)
    have "(of_int q :: rat) < of_int (2 ^ nat bq)" using qb(2) by (simp only: of_int_less_iff)
    then show "of_int q < (2::rat) powi bq" using bq1 by (simp add: power_int_def)
  qed
  have qrpos: "(0::rat) < of_int q" using qpos by simp
  have upper: "x < 2 powi (bp - bq + 1)"
  proof -
    have "x * of_int q = of_int p" using qrpos by (simp add: xeq)
    also have "\<dots> < 2 powi bp" by (rule pr(2))
    also have "\<dots> = 2 powi (bp - bq + 1) * 2 powi (bq - 1)"
      by (simp flip: power_int_add)
    also have "\<dots> \<le> 2 powi (bp - bq + 1) * of_int q"
      by (rule mult_left_mono[OF qr(1)]) simp
    finally show ?thesis using qrpos by (simp only: mult_less_cancel_right_pos)
  qed
  have lower: "2 powi (bp - bq - 1) \<le> x"
  proof -
    have "2 powi (bp - bq - 1) * of_int q \<le> 2 powi (bp - bq - 1) * (2::rat) powi bq"
      by (rule mult_left_mono) (use qr(2) in simp_all)
    also have "\<dots> = 2 powi (bp - 1)" by (simp flip: power_int_add)
    also have "\<dots> \<le> of_int p" by (rule pr(1))
    also have "\<dots> = x * of_int q" using qrpos by (simp add: xeq)
    finally show ?thesis using qrpos by (simp only: mult_le_cancel_right_pos)
  qed
  have b: "binade x = (if 2 powi (bp - bq) \<le> x then bp - bq else bp - bq - 1)"
    by (simp add: binade_def pq bp_def bq_def Let_def)
  show "2 powi binade x \<le> x" using lower by (simp add: b)
  show "x < 2 powi (binade x + 1)" using upper by (auto simp add: b not_le)
qed

lemma binade_less:
  assumes "0 < x" "x < 2 powi k"
  shows "binade x < k"
proof (rule ccontr)
  assume "\<not> binade x < k"
  then have "k \<le> binade x" by simp
  then have "(2::rat) powi k \<le> 2 powi binade x" by (rule power_int_increasing) simp
  also have "\<dots> \<le> x" by (rule binade_bounds(1)[OF assms(1)])
  finally show False using assms(2) by simp
qed

lemma round_even_le:
  assumes "x \<le> of_int k"
  shows "round_even x \<le> k"
proof (cases "x = of_int k")
  case True
  then show ?thesis by (simp add: round_even_def)
next
  case False
  with assms have "x < of_int k" by simp
  then have "\<lfloor>x\<rfloor> < k" by (simp add: floor_less_iff)
  then show ?thesis by (simp add: round_even_def Let_def)
qed

lemma round_even_nonneg:
  assumes "0 \<le> x"
  shows "0 \<le> round_even x"
proof -
  have "0 \<le> \<lfloor>x\<rfloor>" using assms by simp
  then show ?thesis by (simp add: round_even_def Let_def)
qed

lemma round64_pos_bounded:
  assumes "0 < x" "x \<le> of_nat n" "n < 2 ^ 53"
  shows "\<exists>r. round64_pos x = Num r \<and> 0 \<le> r \<and> r \<le> of_nat n"
proof -
  define q where "q = quantum x"
  have "(of_nat n :: rat) < of_nat (2 ^ 53)" using assms(3) by (simp only: of_nat_less_iff)
  then have "x < 2 powi 53" using assms(2) by simp
  then have "binade x < 53" by (rule binade_less[OF assms(1)])
  then have q0: "q \<le> 0" by (simp add: q_def quantum_def)
  define s :: rat where "s = 2 powi q"
  have spos: "0 < s" by (simp add: s_def)
  define K where "K = int n * 2 ^ nat (- q)"
  have Ks: "of_int K * s = (of_nat n :: rat)"
    using q0 by (simp add: K_def s_def power_int_def field_simps)
  have "x / s \<le> of_int K"
    using assms(2) spos by (simp add: Ks[symmetric] pos_divide_le_eq)
  then have le: "round_even (x / s) \<le> K" by (rule round_even_le)
  have ge: "0 \<le> round_even (x / s)"
    by (rule round_even_nonneg) (use assms(1) spos in simp)
  define r :: rat where "r = of_int (round_even (x / s)) * s"
  have r0: "0 \<le> r" using ge spos by (simp add: r_def)
  have "r \<le> of_int K * s"
    unfolding r_def using le spos by (simp only: mult_le_cancel_right_pos of_int_le_iff)
  then have rn: "r \<le> of_nat n" by (simp add: Ks)
  have "(of_nat n :: rat) < 2 ^ 1024"
  proof -
    have "(of_nat n :: rat) < of_nat (2 ^ 53)" using assms(3) by (simp only: of_nat_less_iff)
    also have "\<dots> \<le> 2 ^ 1024" by simp
    finally show ?thesis .
  qed
  with rn have "\<not> 2 ^ 1024 \<le> r" by simp
  then have "round64_pos x = Num r"
    by (simp add: round64_pos_def Let_def r_def s_def q_def)
  with r0 rn show ?thesis by blast
qed

lemma round64_bounded:
  assumes "0 \<le> x" "x \<le> of_nat n" "n < 2 ^ 53"
  shows "\<exists>r. round64 x = Num r \<and> 0 \<le> r \<and> r \<le> of_nat n"
proof (cases "x = 0")
  case True
  then show ?thesis by (simp add: round64_def)
next
  case False
  with assms(1) have "0 < x" by simp
  then show ?thesis using round64_pos_bounded[OF _ assms(2,3)] by (simp add: round64_def)
qed

lemma binade_eqI:
  assumes "2 powi e \<le> x" and "x < 2 powi (e + 1)"
  shows "binade x = e"
proof -
  have pos: "0 < x"
  proof -
    have "(0::rat) < 2 powi e" by simp
    then show ?thesis using assms(1) by (rule less_le_trans)
  qed
  have "binade x < e + 1" by (rule binade_less[OF pos assms(2)])
  moreover have "e < binade x + 1"
  proof (rule ccontr)
    assume "\<not> e < binade x + 1"
    then have "binade x + 1 \<le> e" by simp
    then have "(2::rat) powi (binade x + 1) \<le> 2 powi e" by (rule power_int_increasing) simp
    with binade_bounds(2)[OF pos] assms(1) show False by simp
  qed
  ultimately show ?thesis by simp
qed

lemma round_even_nearest:
  assumes "of_int n - 1 / 2 < x" and "x < of_int n + 1 / 2"
  shows "round_even x = n"
proof (cases "x < of_int n")
  case True
  have "of_int (n - 1) \<le> x" using assms(1) by simp
  with True have f: "\<lfloor>x\<rfloor> = n - 1" by (simp add: floor_unique)
  have "1 / 2 < x - of_int (n - 1)" using assms(1) by simp
  then show ?thesis by (simp add: round_even_def Let_def f)
next
  case False
  then have "of_int n \<le> x" by simp
  moreover have "x < of_int n + 1" using assms(2) by simp
  ultimately have f: "\<lfloor>x\<rfloor> = n" by (simp add: floor_unique)
  have "x - of_int n < 1 / 2" using assms(2) by simp
  then show ?thesis by (simp add: round_even_def Let_def f)
qed

lemma round_even_tie:
  assumes "x = of_int m + 1 / 2"
  shows "round_even x = (if even m then m else m + 1)"
proof -
  have "of_int m \<le> x" and "x < of_int m + 1" using assms by simp_all
  then have f: "\<lfloor>x\<rfloor> = m" by (simp add: floor_unique)
  have "x - of_int m = 1 / 2" using assms by simp
  then show ?thesis by (simp add: round_even_def Let_def f)
qed

lemma round64_rounded:
  assumes lo: "2 powi e \<le> x" and hi: "x < 2 powi (e + 1)"
    and range: "- 1022 \<le> e" "e \<le> 1022"
    and n: "round_even (x * 2 powi (52 - e)) = n"
    and val: "of_int n * 2 powi (e - 52) = y"
  shows "round64 x = Num y"
proof -
  have pos: "0 < x"
  proof -
    have "(0::rat) < 2 powi e" by simp
    then show ?thesis using lo by (rule less_le_trans)
  qed
  have b: "binade x = e" by (rule binade_eqI[OF lo hi])
  have q: "quantum x = e - 52" using range by (simp add: quantum_def b)
  have scale: "x / 2 powi (e - 52) = x * 2 powi (52 - e)"
  proof -
    have "(2::rat) powi (52 - e) = inverse (2 powi (e - 52))"
      by (simp flip: power_int_minus)
    then show ?thesis by (simp add: divide_inverse)
  qed
  have "x * 2 powi (52 - e) \<le> 2 powi (e + 1) * 2 powi (52 - e)"
    by (rule mult_right_mono) (use hi in simp_all)
  also have "\<dots> = 2 powi 53"
  proof -
    have "(2::rat) powi ((e + 1) + (52 - e)) = 2 powi (e + 1) * 2 powi (52 - e)"
      by (rule power_int_add) simp
    moreover have "(e + 1) + (52 - e) = 53" by simp
    ultimately show ?thesis by (simp only:)
  qed
  also have "\<dots> = of_int (2 ^ 53)" by simp
  finally have "round_even (x * 2 powi (52 - e)) \<le> 2 ^ 53" by (rule round_even_le)
  then have "(of_int n :: rat) \<le> of_int (2 ^ 53)"
    by (simp only: of_int_le_iff n)
  also have "\<dots> = 2 powi 53" by simp
  finally have "of_int n * 2 powi (e - 52) \<le> (2 powi 53 :: rat) * 2 powi (e - 52)"
    by (rule mult_right_mono) simp
  also have "(2 powi 53 :: rat) * 2 powi (e - 52) = 2 powi (e + 1)"
  proof -
    have "(2::rat) powi (53 + (e - 52)) = 2 powi 53 * 2 powi (e - 52)"
      by (rule power_int_add) simp
    moreover have "53 + (e - 52) = e + 1" by simp
    ultimately show ?thesis by (simp only:)
  qed
  also have "\<dots> \<le> 2 powi 1023" by (rule power_int_increasing) (use range in simp_all)
  also have "\<dots> < (2::rat) ^ 1024" by simp
  finally have "y < 2 ^ 1024" by (simp add: val)
  then show ?thesis using pos by (simp add: round64_def round64_pos_def q scale val n)
qed

lemma round64_value:
  assumes "2 powi e \<le> x" and "x < 2 powi (e + 1)"
    and "- 1022 \<le> e" "e \<le> 1022"
    and near: "of_int n - 1 / 2 < x * 2 powi (52 - e)" "x * 2 powi (52 - e) < of_int n + 1 / 2"
    and "of_int n * 2 powi (e - 52) = y"
  shows "round64 x = Num y"
  using assms(1-4) round_even_nearest[OF near] assms(7) by (rule round64_rounded)

lemma js_round_value:
  assumes "of_int k \<le> s + 1 / 2" and "s + 1 / 2 < of_int k + 1"
  shows "js_round (Num s) = Num (of_int k)"
  using assms by (simp add: floor_unique)

lemma js_round_zero: "js_round (Num 0) = Num 0"
  using js_round_value[of 0 0] by simp

lemma average_of_nothing:
  "n \<noteq> 0 \<Longrightarrow> js_div (js_round (js_mul (js_div (Num 0) (Num n)) (Num 10))) (Num 10) = Num 0"
  by (simp add: round64_def js_round_zero del: js_round.simps)

lemma js_div_ratio:
  assumes "a \<le> b" and "0 < b"
  shows "\<exists>r. js_div (num a) (num b) = Num r \<and> 0 \<le> r \<and> r \<le> 1"
proof -
  have "(of_nat a :: rat) / of_nat b \<le> of_nat 1"
    using assms by (simp add: divide_le_eq_1)
  moreover have "0 \<le> (of_nat a :: rat) / of_nat b" by simp
  moreover have "(1::nat) < 2 ^ 53" by simp
  ultimately obtain r where "round64 (of_nat a / of_nat b) = Num r" "0 \<le> r" "r \<le> of_nat 1"
    using round64_bounded by blast
  then show ?thesis using assms(2) by (simp add: num_def)
qed

lemma js_mul_scale:
  assumes "0 \<le> r" and "r \<le> 1" and "n < 2 ^ 53"
  shows "\<exists>s. js_mul (Num r) (Num (of_nat n)) = Num s \<and> 0 \<le> s \<and> s \<le> of_nat n"
proof -
  have "r * of_nat n \<le> 1 * of_nat n" by (rule mult_right_mono) (use assms in simp_all)
  then have "r * of_nat n \<le> of_nat n" by simp
  moreover have "0 \<le> r * of_nat n" using assms(1) by simp
  ultimately show ?thesis using round64_bounded[OF _ _ assms(3)] by simp
qed

lemma js_round_range:
  assumes "0 \<le> s" and "s \<le> of_nat n"
  shows "\<exists>t. js_round (Num s) = Num (of_nat t) \<and> t \<le> n"
proof -
  define t where "t = nat \<lfloor>s + 1 / 2\<rfloor>"
  have nonneg: "0 \<le> \<lfloor>s + 1 / 2\<rfloor>" using assms(1) by simp
  have "s + 1 / 2 < of_int (int n + 1)" using assms(2) by simp
  then have "\<lfloor>s + 1 / 2\<rfloor> < int n + 1" by (simp only: floor_less_iff)
  then have "t \<le> n" using nonneg by (simp add: t_def)
  moreover have "js_round (Num s) = Num (of_nat t)"
    using nonneg by (simp add: t_def)
  ultimately show ?thesis by blast
qed

lemma percentage_range:
  assumes "a \<le> b" and "0 < b"
  shows "\<exists>t. js_round (js_mul (js_div (num a) (num b)) (Num 100)) = Num (of_nat t) \<and> t \<le> 100"
proof -
  obtain r where r: "js_div (num a) (num b) = Num r" "0 \<le> r" "r \<le> 1"
    using js_div_ratio[OF assms] by blast
  have "(100::nat) < 2 ^ 53" by simp
  from js_mul_scale[OF r(2,3) this]
  obtain s where s: "js_mul (Num r) (Num 100) = Num s" "0 \<le> s" "s \<le> of_nat 100" by auto
  have "js_round (js_mul (js_div (num a) (num b)) (Num 100)) = js_round (Num s)"
    by (simp only: r(1) s(1))
  with js_round_range[OF s(2,3)] show ?thesis by simp
qed

lemma floor_numeral_quotient:
  "\<lfloor>(numeral a :: rat) / numeral b\<rfloor> = numeral a div numeral b"
  using floor_divide_of_int_eq[of "numeral a" "numeral b", where ?'a = rat] by simp

section \<open>Some binary64 computations\<close>

lemma percent_1_2:
  "js_round (js_mul (js_div (Num 1) (Num 2)) (Num 100)) = Num 50"
proof -
  have s1: "round64 (1 / 2) = Num (1 / 2)"
    by (rule round64_value[where e = "- 1" and n = 4503599627370496]) simp_all
  have s2: "js_div (Num (1)) (Num (2)) = Num (1 / 2)"
    by (simp add: s1)
  have s3: "round64 (50) = Num (50)"
    by (rule round64_value[where e = 5 and n = 7036874417766400]) simp_all
  have s4: "js_mul (Num (1 / 2)) (Num (100)) = Num (50)"
    by (simp add: s3)
  have s5: "js_round (Num (50)) = Num 50"
    using js_round_value[of 50 "50"] by simp
  show ?thesis
    by (simp only: s2 s4 s5)
qed

lemma percent_1_1:
  "js_round (js_mul (js_div (Num 1) (Num 1)) (Num 100)) = Num 100"
proof -
  have s1: "round64 (1) = Num (1)"
    by (rule round64_value[where e = 0 and n = 4503599627370496]) simp_all
  have s2: "js_div (Num (1)) (Num (1)) = Num (1)"
    by (simp add: s1)
  have s3: "round64 (100) = Num (100)"
    by (rule round64_value[where e = 6 and n = 7036874417766400]) simp_all
  have s4: "js_mul (Num (1)) (Num (100)) = Num (100)"
    by (simp add: s3)
  have s5: "js_round (Num (100)) = Num 100"
    using js_round_value[of 100 "100"] by simp
  show ?thesis
    by (simp only: s2 s4 s5)
qed

lemma percent_23_40:
  "js_round (js_mul (js_div (Num 23) (Num 40)) (Num 100)) = Num 57"
proof -
  have s1: "round64 (23 / 40) = Num (2589569785738035 / 4503599627370496)"
    by (rule round64_value[where e = "- 1" and n = 5179139571476070]) simp_all
  have s2: "js_div (Num (23)) (Num (40)) = Num (2589569785738035 / 4503599627370496)"
    by (simp add: s1)
  have s3: "round64 (64739244643450875 / 1125899906842624) = Num (8092405580431359 / 140737488355328)"
    by (rule round64_value[where e = 5 and n = 8092405580431359]) simp_all
  have s4: "js_mul (Num (2589569785738035 / 4503599627370496)) (Num (100)) = Num (8092405580431359 / 140737488355328)"
    by (simp add: s3)
  have s5: "js_round (Num (8092405580431359 / 140737488355328)) = Num 57"
    using js_round_value[of 57 "8092405580431359 / 140737488355328"] by simp
  show ?thesis
    by (simp only: s2 s4 s5)
qed

lemma percent_40_40:
  "js_round (js_mul (js_div (Num 40) (Num 40)) (Num 100)) = Num 100"
proof -
  have s1: "round64 (1) = Num (1)"
    by (rule round64_value[where e = 0 and n = 4503599627370496]) simp_all
  have s2: "js_div (Num (40)) (Num (40)) = Num (1)"
    by (simp add: s1)
  have s3: "round64 (100) = Num (100)"
    by (rule round64_value[where e = 6 and n = 7036874417766400]) simp_all
  have s4: "js_mul (Num (1)) (Num (100)) = Num (100)"
    by (simp add: s3)
  have s5: "js_round (Num (100)) = Num 100"
    using js_round_value[of 100 "100"] by simp
  show ?thesis
    by (simp only: s2 s4 s5)
qed

lemma percent_15_28:
  "js_round (js_mul (js_div (Num 15) (Num 28)) (Num 100)) = Num 54"
proof -
  have s1: "round64 (15 / 28) = Num (4825285315039817 / 9007199254740992)"
    by (rule round64_value[where e = "- 1" and n = 4825285315039817]) simp_all
  have s2: "js_div (Num (15)) (Num (28)) = Num (4825285315039817 / 9007199254740992)"
    by (simp add: s1)
  have s3: "round64 (120632132875995425 / 2251799813685248) = Num (3769754152374857 / 70368744177664)"
    by (rule round64_value[where e = 5 and n = 7539508304749714]) simp_all
  have s4: "js_mul (Num (4825285315039817 / 9007199254740992)) (Num (100)) = Num (3769754152374857 / 70368744177664)"
    by (simp add: s3)
  have s5: "js_round (Num (3769754152374857 / 70368744177664)) = Num 54"
    using js_round_value[of 54 "3769754152374857 / 70368744177664"] by simp
  show ?thesis
    by (simp only: s2 s4 s5)
qed

lemma percent_1_28:
  "js_round (js_mul (js_div (Num 1) (Num 28)) (Num 100)) = Num 4"
proof -
  have s1: "round64 (1 / 28) = Num (2573485501354569 / 72057594037927936)"
    by (rule round64_value[where e = "- 5" and n = 5146971002709138]) simp_all
  have s2: "js_div (Num (1)) (Num (28)) = Num (2573485501354569 / 72057594037927936)"
    by (simp add: s1)
  have s3: "round64 (64337137533864225 / 18014398509481984) = Num (2010535547933257 / 562949953421312)"
    by (rule round64_value[where e = 1 and n = 8042142191733028]) simp_all
  have s4: "js_mul (Num (2573485501354569 / 72057594037927936)) (Num (100)) = Num (2010535547933257 / 562949953421312)"
    by (simp add: s3)
  have s5: "js_round (Num (2010535547933257 / 562949953421312)) = Num 4"
    using js_round_value[of 4 "2010535547933257 / 562949953421312"] by simp
  show ?thesis
    by (simp only: s2 s4 s5)
qed

lemma percent_28_28:
  "js_round (js_mul (js_div (Num 28) (Num 28)) (Num 100)) = Num 100"
proof -
  have s1: "round64 (1) = Num (1)"
    by (rule round64_value[where e = 0 and n = 4503599627370496]) simp_all
  have s2: "js_div (Num (28)) (Num (28)) = Num (1)"
    by (simp add: s1)
  have s3: "round64 (100) = Num (100)"
    by (rule round64_value[where e = 6 and n = 7036874417766400]) simp_all
  have s4: "js_mul (Num (1)) (Num (100)) = Num (100)"
    by (simp add: s3)
  have s5: "js_round (Num (100)) = Num 100"
    using js_round_value[of 100 "100"] by simp
  show ?thesis
    by (simp only: s2 s4 s5)
qed

lemma score_example:
  "js_round (js_add (js_add (js_mul (js_div (Num 1) (Num 2)) (Num 30)) (Num 0)) (js_min (js_mul (js_div (Num 2) (Num 3)) (Num 30)) (Num 30))) = Num 35"
proof -
  have s1: "round64 (1 / 2) = Num (1 / 2)"
    by (rule round64_value[where e = "- 1" and n = 4503599627370496]) simp_all
  have s2: "js_div (Num (1)) (Num (2)) = Num (1 / 2)"
    by (simp add: s1)
  have s3: "round64 (15) = Num (15)"
    by (rule round64_value[where e = 3 and n = 8444249301319680]) simp_all
  have s4: "js_mul (Num (1 / 2)) (Num (30)) = Num (15)"
    by (simp add: s3)
  have s5: "round64 (2 / 3) = Num (6004799503160661 / 9007199254740992)"
    by (rule round64_value[where e = "- 1" and n = 6004799503160661]) simp_all
  have s6: "js_div (Num (2)) (Num (3)) = Num (6004799503160661 / 9007199254740992)"
    by (simp add: s5)
  have s7: "round64 (90071992547409915 / 4503599627370496) = Num (20)"
    by (rule round64_value[where e = 4 and n = 5629499534213120]) simp_all
  have s8: "js_mul (Num (6004799503160661 / 9007199254740992)) (Num (30)) = Num (20)"
    by (simp add: s7)
  have s9: "js_min (Num (20)) (Num (30)) = Num (20)"
    by (simp add: js_min_def)
  have s10: "round64 (15) = Num (15)"
    by (rule round64_value[where e = 3 and n = 8444249301319680]) simp_all
  have s11: "js_add (Num (15)) (Num (0)) = Num (15)"
    by (simp add: s10)
  have s12: "round64 (35) = Num (35)"
    by (rule round64_value[where e = 5 and n = 4925812092436480]) simp_all
  have s13: "js_add (Num (15)) (Num (20)) = Num (35)"
    by (simp add: s12)
  have s14: "js_round (Num (35)) = Num 35"
    using js_round_value[of 35 "35"] by simp
  show ?thesis
    by (simp only: s2 s4 s6 s8 s9 s11 s13 s14)
qed

lemma score_busy:
  "js_round (js_add (js_add (js_mul (js_div (Num 15) (Num 28)) (Num 30)) (js_mul (js_div (Num 1) (Num 28)) (Num 40))) (js_min (js_mul (js_div (Num 1) (Num 3)) (Num 30)) (Num 30))) = Num 27"
proof -
  have s1: "round64 (15 / 28) = Num (4825285315039817 / 9007199254740992)"
    by (rule round64_value[where e = "- 1" and n = 4825285315039817]) simp_all
  have s2: "js_div (Num (15)) (Num (28)) = Num (4825285315039817 / 9007199254740992)"
    by (simp add: s1)
  have s3: "round64 (72379279725597255 / 4503599627370496) = Num (1130926245712457 / 70368744177664)"
    by (rule round64_value[where e = 4 and n = 4523704982849828]) simp_all
  have s4: "js_mul (Num (4825285315039817 / 9007199254740992)) (Num (30)) = Num (1130926245712457 / 70368744177664)"
    by (simp add: s3)
  have s5: "round64 (1 / 28) = Num (2573485501354569 / 72057594037927936)"
    by (rule round64_value[where e = "- 5" and n = 5146971002709138]) simp_all
  have s6: "js_div (Num (1)) (Num (28)) = Num (2573485501354569 / 72057594037927936)"
    by (simp add: s5)
  have s8: "round_even (12867427506772845 / 2) = 6433713753386422"
    using round_even_tie[of "12867427506772845 / 2" 6433713753386422] by simp
  have s7: "round64 (12867427506772845 / 9007199254740992) = Num (3216856876693211 / 2251799813685248)"
    by (rule round64_rounded[where e = 0 and n = 6433713753386422]) (simp_all add: s8)
  have s9: "js_mul (Num (2573485501354569 / 72057594037927936)) (Num (40)) = Num (3216856876693211 / 2251799813685248)"
    by (simp add: s7)
  have s10: "round64 (1 / 3) = Num (6004799503160661 / 18014398509481984)"
    by (rule round64_value[where e = "- 2" and n = 6004799503160661]) simp_all
  have s11: "js_div (Num (1)) (Num (3)) = Num (6004799503160661 / 18014398509481984)"
    by (simp add: s10)
  have s12: "round64 (90071992547409915 / 9007199254740992) = Num (10)"
    by (rule round64_value[where e = 3 and n = 5629499534213120]) simp_all
  have s13: "js_mul (Num (6004799503160661 / 18014398509481984)) (Num (30)) = Num (10)"
    by (simp add: s12)
  have s14: "js_min (Num (10)) (Num (30)) = Num (10)"
    by (simp add: js_min_def)
  have s15: "round64 (39406496739491835 / 2251799813685248) = Num (4925812092436479 / 281474976710656)"
    by (rule round64_value[where e = 4 and n = 4925812092436479]) simp_all
  have s16: "js_add (Num (1130926245712457 / 70368744177664)) (Num (3216856876693211 / 2251799813685248)) = Num (4925812092436479 / 281474976710656)"
    by (simp add: s15)
  have s17: "round64 (7740561859543039 / 281474976710656) = Num (7740561859543039 / 281474976710656)"
    by (rule round64_value[where e = 4 and n = 7740561859543039]) simp_all
  have s18: "js_add (Num (4925812092436479 / 281474976710656)) (Num (10)) = Num (7740561859543039 / 281474976710656)"
    by (simp add: s17)
  have s19: "js_round (Num (7740561859543039 / 281474976710656)) = Num 27"
    using js_round_value[of 27 "7740561859543039 / 281474976710656"] by simp
  show ?thesis
    by (simp only: s2 s4 s6 s9 s11 s13 s14 s16 s18 s19)
qed

section \<open>Objects, loops and grouping\<close>

lemma map_of_js_set: "map_of (js_set obj k v) = (map_of obj)(k \<mapsto> v)"
  by (induction obj) (auto simp: fun_eq_iff)

lemma keys_js_set:
  "map fst (js_set obj k v) = (if k \<in> set (map fst obj) then map fst obj else map fst obj @ [k])"
  by (induction obj) force+

lemma js_get_Own: "js_get obj k = Own v \<longleftrightarrow> map_of obj k = Some v"
  by (simp add: js_get_def split: option.splits)

lemma js_get_Absent:
  "js_get obj k = Absent \<longleftrightarrow> map_of obj k = None \<and> k \<notin> set objectPrototypeKeys"
  by (simp add: js_get_def split: option.splits)

lemma js_get_Inherited:
  "js_get obj k = Inherited \<longleftrightarrow> map_of obj k = None \<and> k \<in> set objectPrototypeKeys"
  by (simp add: js_get_def split: option.splits)

lemma forEach_append:
  "forEach f (xs @ ys) s = (case forEach f xs s of Inl e \<Rightarrow> Inl e | Inr s' \<Rightarrow> forEach f ys s')"
  by (induction xs arbitrary: s) (auto split: sum.splits)

lemma forEach_snoc_Inr:
  "forEach f (xs @ [x]) s = Inr t \<longleftrightarrow> (\<exists>u. forEach f xs s = Inr u \<and> f u x = Inr t)"
  by (auto simp: forEach_append split: sum.splits)

lemma rowsOf_snoc:
  "rowsOf key k (xs @ [x]) = (if key x = Some k then rowsOf key k xs @ [x] else rowsOf key k xs)"
  by (simp add: rowsOf_def)

lemma grouped_snoc_other:
  "key x \<noteq> Some k \<Longrightarrow> grouped key mk upd k (xs @ [x]) = grouped key mk upd k xs"
  by (simp add: grouped_def rowsOf_snoc)

lemma grouped_snoc_same:
  "key x = Some k \<Longrightarrow>
   grouped key mk upd k (xs @ [x]) =
     Some (upd x (case grouped key mk upd k xs of None \<Rightarrow> mk k x | Some v \<Rightarrow> v))"
  by (simp add: grouped_def rowsOf_snoc split: list.splits)

lemma firstKeys_snoc:
  "firstKeys key (xs @ [x]) =
     (case key x of None \<Rightarrow> firstKeys key xs | Some k \<Rightarrow> set_add k (firstKeys key xs))"
  by (simp add: firstKeys_def split: option.splits)

lemma distinct_set_add: "distinct xs \<Longrightarrow> distinct (set_add x xs)"
  by (simp add: set_add_def)

lemma distinct_firstKeys: "distinct (firstKeys key data)"
  by (induction data rule: rev_induct)
     (simp_all add: firstKeys_snoc distinct_set_add firstKeys_def split: option.splits)

lemma set_firstKeys: "set (firstKeys key data) = {k. \<exists>r \<in> set data. key r = Some k}"
  by (induction data rule: rev_induct)
     (auto simp: firstKeys_snoc set_add_def firstKeys_def split: option.splits)

lemma group_state:
  assumes "forEach (groupStep key mk upd) data [] = Inr obj"
  shows "map_of obj = (\<lambda>k. grouped key mk upd k data) \<and> map fst obj = firstKeys key data"
  using assms
proof (induction data arbitrary: obj rule: rev_induct)
  case Nil
  then show ?case by (simp add: grouped_def rowsOf_def firstKeys_def fun_eq_iff)
next
  case (snoc x xs)
  from snoc.prems obtain u where u: "forEach (groupStep key mk upd) xs [] = Inr u"
    and step: "groupStep key mk upd u x = Inr obj"
    by (auto simp: forEach_snoc_Inr)
  from snoc.IH[OF u] have m: "map_of u = (\<lambda>k. grouped key mk upd k xs)"
    and ks: "map fst u = firstKeys key xs" by simp_all
  show ?case
  proof (cases "key x")
    case None
    with step have "obj = u" by (simp add: groupStep_def)
    with None m ks show ?thesis
      by (simp add: grouped_snoc_other firstKeys_snoc fun_eq_iff)
  next
    case (Some k)
    have mk: "map_of u k = grouped key mk upd k xs" by (simp add: m)
    have inkeys: "k \<in> set (map fst u) \<longleftrightarrow> map_of u k \<noteq> None"
      by (simp add: map_of_eq_None_iff)
    from step Some have obj: "obj = js_set u k (upd x (case map_of u k of None \<Rightarrow> mk k x | Some v \<Rightarrow> v))"
      by (auto simp: groupStep_def js_get_def split: option.splits if_splits)
    have "map_of obj = (\<lambda>k'. grouped key mk upd k' (xs @ [x]))"
    proof
      fix k'
      show "map_of obj k' = grouped key mk upd k' (xs @ [x])"
      proof (cases "k' = k")
        case True
        then show ?thesis using Some by (simp add: obj map_of_js_set grouped_snoc_same mk)
      next
        case False
        then have "key x \<noteq> Some k'" using Some by simp
        then show ?thesis using False by (simp add: obj map_of_js_set grouped_snoc_other m)
      qed
    qed
    moreover have "map fst obj = firstKeys key (xs @ [x])"
      using Some by (simp add: obj keys_js_set firstKeys_snoc set_add_def ks)
    ultimately show ?thesis by simp
  qed
qed

lemma group_succeeds:
  assumes "\<forall>r \<in> set data. \<forall>k. key r = Some k \<longrightarrow> k \<notin> set objectPrototypeKeys"
  shows "\<exists>obj. forEach (groupStep key mk upd) data [] = Inr obj"
  using assms
proof (induction data rule: rev_induct)
  case Nil
  then show ?case by simp
next
  case (snoc x xs)
  then obtain u where u: "forEach (groupStep key mk upd) xs [] = Inr u" by auto
  have "\<exists>obj. groupStep key mk upd u x = Inr obj"
    using snoc.prems by (auto simp: groupStep_def js_get_def split: option.splits)
  with u show ?case by (auto simp: forEach_snoc_Inr)
qed

lemma distinct_keys_explicit:
  "distinct (map fst obj) \<Longrightarrow> obj = map (\<lambda>k. (k, the (map_of obj k))) (map fst obj)"
proof (induction obj)
  case Nil
  then show ?case by simp
next
  case (Cons p obj)
  obtain a b where p: "p = (a, b)" by (cases p)
  from Cons.prems have a: "a \<notin> set (map fst obj)" and d: "distinct (map fst obj)"
    by (simp_all add: p)
  have "map (\<lambda>k. (k, the (map_of (p # obj) k))) (map fst obj) =
        map (\<lambda>k. (k, the (map_of obj k))) (map fst obj)"
    by (rule map_cong) (use a in \<open>auto simp: p\<close>)
  also have "\<dots> = obj" using Cons.IH[OF d] by simp
  finally show ?case by (simp add: p)
qed

lemma group_explicit:
  assumes "forEach (groupStep key mk upd) data [] = Inr obj"
  shows "obj = map (\<lambda>k. (k, the (grouped key mk upd k data))) (firstKeys key data)"
proof -
  from group_state[OF assms] have m: "map_of obj = (\<lambda>k. grouped key mk upd k data)"
    and ks: "map fst obj = firstKeys key data" by simp_all
  have "distinct (map fst obj)" by (simp add: ks distinct_firstKeys)
  from distinct_keys_explicit[OF this] show ?thesis by (simp add: m ks)
qed

lemma locationStep_groupStep:
  "locationStep js = groupStep postKey (\<lambda>k r. newLocation k) (recordPost js)"
  by (auto simp: fun_eq_iff locationStep_def groupStep_def postKey_def split: option.splits property.splits)

lemma attendanceStep_groupStep:
  "attendanceStep js =
     groupStep guardKey (\<lambda>k r. newGuard k (the (r ''Full Name''))) (recordShift js)"
  by (auto simp: fun_eq_iff attendanceStep_def groupStep_def guardKey_def split: option.splits property.splits)

section \<open>The location aggregator computes the tallies of its reference description\<close>

lemma set_js_insert: "set (js_insert cmp x ys) = insert x (set ys)"
  by (induction ys) auto

lemma set_js_sort: "set (js_sort cmp xs) = set xs"
  by (induction xs) (simp_all add: js_sort_def set_js_insert)

lemma length_js_insert: "length (js_insert cmp x ys) = Suc (length ys)"
  by (induction ys) auto

lemma length_js_sort: "length (js_sort cmp xs) = length xs"
  by (induction xs) (simp_all add: js_sort_def length_js_insert)

lemma js_sort_single: "js_sort cmp [x] = [x]"
  by (simp add: js_sort_def)

lemma set_object_values: "set (object_values obj) = snd ` set obj"
  by (auto simp: object_values_def image_iff)

lemma postKey_Some: "postKey r = Some l \<longleftrightarrow> r ''Post Name'' = Some l \<and> l \<noteq> []"
  by (auto simp: postKey_def split: option.splits)

lemma rowsOf_postKey: "l \<noteq> [] \<Longrightarrow> rowsOf postKey l data = atPost l data"
  by (simp add: rowsOf_def atPost_def postKey_Some)

lemma fold_recordPost:
  "foldl (\<lambda>m r. recordPost js r m) m rs =
     \<lparr>location = location m,
      lshifts_total = lshifts_total m + length rs,
      lshifts_covered = lshifts_covered m + length (staffed rs),
      lshifts_onTime = lshifts_onTime m + length (onTimeRows (staffed rs)),
      guards = guardNames (guards m) (staffed rs),
      lshiftHours = dutyHours js (lshiftHours m) (staffed rs)\<rparr>"
proof (induction rs arbitrary: m)
  case Nil
  show ?case by (simp add: staffed_def onTimeRows_def guardNames_def dutyHours_def)
next
  case (Cons r rs)
  show ?case
    by (simp add: Cons.IH)
       (simp add: recordPost_def staffed_def onTimeRows_def guardNames_def dutyHours_def
          truthy_def split: option.splits)
qed

lemma grouped_location:
  assumes "l \<noteq> []"
  shows "grouped postKey (\<lambda>k r. newLocation k) (recordPost js) l data =
           (if atPost l data = [] then None else Some (locationTally js data l))"
proof (cases "atPost l data")
  case Nil
  then show ?thesis using assms by (simp add: grouped_def rowsOf_postKey)
next
  case (Cons r0 rs)
  have "grouped postKey (\<lambda>k r. newLocation k) (recordPost js) l data =
          Some (foldl (\<lambda>m r. recordPost js r m) (newLocation l) (atPost l data))"
    using assms Cons by (simp add: grouped_def rowsOf_postKey)
  also have "foldl (\<lambda>m r. recordPost js r m) (newLocation l) (atPost l data) = locationTally js data l"
    by (simp only: fold_recordPost) (simp add: newLocation_def locationTally_def)
  finally show ?thesis using Cons by simp
qed

lemma groupLocations_state:
  assumes "groupLocations js data = Inr obj"
  shows "obj = map (\<lambda>l. (l, locationTally js data l)) (firstKeys postKey data)"
proof -
  from assms have g: "forEach (groupStep postKey (\<lambda>k r. newLocation k) (recordPost js)) data [] = Inr obj"
    by (simp add: groupLocations_def locationStep_groupStep)
  have "map (\<lambda>k. (k, the (grouped postKey (\<lambda>k r. newLocation k) (recordPost js) k data))) (firstKeys postKey data)
        = map (\<lambda>l. (l, locationTally js data l)) (firstKeys postKey data)"
  proof (rule map_cong[OF refl])
    fix k assume "k \<in> set (firstKeys postKey data)"
    then obtain r where r: "r \<in> set data" "postKey r = Some k" by (auto simp: set_firstKeys)
    then have k: "k \<noteq> []" and "r \<in> set (atPost k data)" by (auto simp: postKey_Some atPost_def)
    then have "atPost k data \<noteq> []" by auto
    then show "(k, the (grouped postKey (\<lambda>k r. newLocation k) (recordPost js) k data)) = (k, locationTally js data k)"
      using k by (simp add: grouped_location)
  qed
  with group_explicit[OF g] show ?thesis by simp
qed

lemma groupLocations_succeeds:
  assumes "\<forall>r \<in> set data. \<forall>l. r ''Post Name'' = Some l \<longrightarrow> l \<notin> set objectPrototypeKeys"
  shows "\<exists>obj. groupLocations js data = Inr obj"
  unfolding groupLocations_def locationStep_groupStep
  by (rule group_succeeds) (use assms in \<open>auto simp: postKey_Some\<close>)

lemma location_profile_source:
  assumes "processLocationCoverage js data = Inr out" and "p \<in> set out"
  shows "\<exists>l. l \<noteq> [] \<and> atPost l data \<noteq> [] \<and> p = locationProfileOf (locationTally js data l)"
proof -
  from assms(1) obtain obj where obj: "groupLocations js data = Inr obj"
    and out: "out = js_sort (\<lambda>a b. js_sub (coverageRate b) (coverageRate a))
                      (map locationProfileOf (object_values obj))"
    by (auto simp: processLocationCoverage_def split: sum.splits)
  from assms(2) obtain m where m: "m \<in> snd ` set obj" and p: "p = locationProfileOf m"
    by (auto simp: out set_js_sort set_object_values)
  from m groupLocations_state[OF obj] obtain l where l: "l \<in> set (firstKeys postKey data)"
    and ml: "m = locationTally js data l" by auto
  from l obtain r where r: "r \<in> set data" "postKey r = Some l" by (auto simp: set_firstKeys)
  then have "l \<noteq> []" and "r \<in> set (atPost l data)" by (auto simp: postKey_Some atPost_def)
  then have "l \<noteq> [] \<and> atPost l data \<noteq> []" by auto
  with p ml show ?thesis by blast
qed

section \<open>The guard aggregator computes the tallies of its reference description\<close>

lemma fold_recordShift:
  "foldl (\<lambda>g r. recordShift js r g) g rs =
     g\<lparr>shifts_total := shifts_total g + length rs,
       shifts_onTime := shifts_onTime g + length (onTimeRows rs),
       shifts_late := shifts_late g + length (lateRows rs),
       coverage := postsCovered (coverage g) rs,
       shiftHours := dutyHours js (shiftHours g) rs\<rparr>"
proof (induction rs arbitrary: g)
  case Nil
  show ?case by (simp add: onTimeRows_def lateRows_def postsCovered_def dutyHours_def)
next
  case (Cons r rs)
  show ?case
    by (simp add: Cons.IH)
       (simp add: recordShift_def onTimeRows_def lateRows_def postsCovered_def dutyHours_def)
qed

lemma fold_recordActivity:
  "foldl (\<lambda>g r. recordActivity js r g) g rs =
     g\<lparr>activities_total := activities_total g + length rs,
       activities_onTime := activities_onTime g + length (onTimeActivities rs),
       activities_locationAccurate :=
         activities_locationAccurate g + length (filter (guardLocationAccurate js) rs)\<rparr>"
proof (induction rs arbitrary: g)
  case Nil
  show ?case by (simp add: onTimeActivities_def)
next
  case (Cons r rs)
  show ?case
    by (simp add: Cons.IH) (simp add: recordActivity_def onTimeActivities_def)
qed

lemma guardKey_Some:
  "guardKey r = Some k \<longleftrightarrow>
     r ''Service Number'' = Some k \<and> k \<noteq> [] \<and> truthy (r ''Full Name'')"
  by (auto simp: guardKey_def truthy_def split: option.splits)

lemma activityKey_Some:
  "activityKey r = Some k \<longleftrightarrow> r ''Service Number'' = Some k \<and> k \<noteq> []"
  by (auto simp: activityKey_def split: option.splits)

lemma rowsOf_Nil: "rowsOf key k [] = []"
  by (simp add: rowsOf_def)

lemma seedGuards_state:
  assumes "seedGuards js attendanceData = Inr obj"
  shows "obj = map (\<lambda>k. (k, guardTally js [] attendanceData k)) (firstKeys guardKey attendanceData)"
proof -
  let ?mk = "\<lambda>k r. newGuard k (the (r ''Full Name''))"
  from assms have g: "forEach (groupStep guardKey ?mk (recordShift js)) attendanceData [] = Inr obj"
    by (simp add: seedGuards_def attendanceStep_groupStep)
  have "map (\<lambda>k. (k, the (grouped guardKey ?mk (recordShift js) k attendanceData)))
          (firstKeys guardKey attendanceData)
        = map (\<lambda>k. (k, guardTally js [] attendanceData k)) (firstKeys guardKey attendanceData)"
  proof (rule map_cong[OF refl])
    fix k assume "k \<in> set (firstKeys guardKey attendanceData)"
    then obtain r where r: "r \<in> set attendanceData" "guardKey r = Some k"
      by (auto simp: set_firstKeys)
    then have "r \<in> set (rowsOf guardKey k attendanceData)" by (simp add: rowsOf_def)
    then obtain r0 rs where rows: "rowsOf guardKey k attendanceData = r0 # rs"
      by (cases "rowsOf guardKey k attendanceData") auto
    have "the (grouped guardKey ?mk (recordShift js) k attendanceData) =
            foldl (\<lambda>g r. recordShift js r g) (newGuard k (the (r0 ''Full Name''))) (r0 # rs)"
      by (simp add: grouped_def rows)
    also have "\<dots> = guardTally js [] attendanceData k"
      by (simp only: fold_recordShift)
         (simp add: newGuard_def guardTally_def rows rowsOf_Nil onTimeActivities_def)
    finally show "(k, the (grouped guardKey ?mk (recordShift js) k attendanceData)) =
                  (k, guardTally js [] attendanceData k)" by simp
  qed
  with group_explicit[OF g] show ?thesis by simp
qed

lemma seedGuards_succeeds:
  assumes "\<forall>r \<in> set attendanceData. \<forall>k. guardKey r = Some k \<longrightarrow> k \<notin> set objectPrototypeKeys"
  shows "\<exists>obj. seedGuards js attendanceData = Inr obj"
  unfolding seedGuards_def attendanceStep_groupStep
  by (rule group_succeeds) (rule assms)

lemma activity_pass_state:
  assumes "forEach (activityStep js) acts obj = Inr obj'"
  shows "map fst obj' = map fst obj \<and>
         map_of obj' =
           (\<lambda>k. map_option (\<lambda>g. foldl (\<lambda>g r. recordActivity js r g) g (rowsOf activityKey k acts))
                  (map_of obj k))"
  using assms
proof (induction acts arbitrary: obj)
  case Nil
  then show ?case by (simp add: rowsOf_def fun_eq_iff option.map_ident)
next
  case (Cons x xs)
  from Cons.prems obtain u where u: "activityStep js obj x = Inr u"
    and rest: "forEach (activityStep js) xs u = Inr obj'"
    by (auto split: sum.splits)
  note IH = Cons.IH[OF rest]
  show ?case
  proof (cases "activityKey x")
    case None
    then have "u = obj" using u by (auto simp: activityStep_def activityKey_def split: option.splits if_splits)
    with IH None show ?thesis by (simp add: rowsOf_def)
  next
    case (Some kx)
    then have sn: "x ''Service Number'' = Some kx" "kx \<noteq> []" by (simp_all add: activityKey_Some)
    show ?thesis
    proof (cases "map_of obj kx")
      case None
      then have "u = obj" using u sn
        by (auto simp: activityStep_def js_get_def split: if_splits)
      moreover have "\<And>k. map_of obj k \<noteq> None \<Longrightarrow> rowsOf activityKey k (x # xs) = rowsOf activityKey k xs"
        using None Some by (auto simp: rowsOf_def)
      ultimately show ?thesis using IH
        by (auto simp: fun_eq_iff map_option_case split: option.splits)
    next
      case (Some g)
      then have ueq: "u = js_set obj kx (recordActivity js x g)" using u sn
        by (auto simp: activityStep_def js_get_def)
      have inkeys: "kx \<in> set (map fst obj)"
        using Some map_of_eq_None_iff[of obj kx] by auto
      have keys: "map fst u = map fst obj" using inkeys by (simp add: ueq keys_js_set)
      have "map_of obj' k =
              map_option (\<lambda>g. foldl (\<lambda>g r. recordActivity js r g) g (rowsOf activityKey k (x # xs)))
                (map_of obj k)" for k
      proof (cases "k = kx")
        case True
        then show ?thesis using IH Some \<open>activityKey x = Some kx\<close>
          by (simp add: ueq map_of_js_set rowsOf_def)
      next
        case False
        then have "activityKey x \<noteq> Some k" using \<open>activityKey x = Some kx\<close> by simp
        then show ?thesis using IH False by (simp add: ueq map_of_js_set rowsOf_def)
      qed
      then show ?thesis using IH keys by (simp add: fun_eq_iff)
    qed
  qed
qed

lemma activity_pass_succeeds:
  assumes "\<forall>r \<in> set acts. \<forall>k. activityKey r = Some k \<longrightarrow>
             k \<in> set (map fst obj) \<or> k \<notin> set objectPrototypeKeys"
  shows "\<exists>obj'. forEach (activityStep js) acts obj = Inr obj'"
  using assms
proof (induction acts arbitrary: obj)
  case Nil
  then show ?case by simp
next
  case (Cons x xs)
  have "\<exists>u. activityStep js obj x = Inr u"
  proof (cases "activityKey x")
    case None
    then show ?thesis by (auto simp: activityStep_def activityKey_def split: option.splits if_splits)
  next
    case (Some kx)
    then have sn: "x ''Service Number'' = Some kx" "kx \<noteq> []" by (simp_all add: activityKey_Some)
    from Cons.prems Some have "kx \<in> set (map fst obj) \<or> kx \<notin> set objectPrototypeKeys" by simp
    then have "js_get obj kx \<noteq> Inherited"
      by (auto simp: js_get_Inherited map_of_eq_None_iff)
    then show ?thesis using sn by (cases "js_get obj kx") (simp_all add: activityStep_def)
  qed
  then obtain u where u: "activityStep js obj x = Inr u" by blast
  have "map fst u = map fst obj"
    using activity_pass_state[of js "[x]" obj u] u by simp
  with Cons.prems have "\<forall>r \<in> set xs. \<forall>k. activityKey r = Some k \<longrightarrow>
             k \<in> set (map fst u) \<or> k \<notin> set objectPrototypeKeys" by simp
  from Cons.IH[OF this] u show ?case by auto
qed

lemma map_of_keyed:
  "map_of (map (\<lambda>k. (k, f k)) ks) k = (if k \<in> set ks then Some (f k) else None)"
  by (induction ks) auto

lemma guardMetrics_state:
  assumes s: "seedGuards js atts = Inr seeded"
    and a: "forEach (activityStep js) acts seeded = Inr gm"
  shows "gm = map (\<lambda>k. (k, guardTally js acts atts k)) (firstKeys guardKey atts)"
proof -
  note seeded = seedGuards_state[OF s]
  from activity_pass_state[OF a] have keys: "map fst gm = map fst seeded"
    and m: "\<And>k. map_of gm k =
              map_option (\<lambda>g. foldl (\<lambda>g r. recordActivity js r g) g (rowsOf activityKey k acts))
                (map_of seeded k)"
    by simp_all
  have ks: "map fst gm = firstKeys guardKey atts"
    by (simp add: keys) (simp add: seeded comp_def)
  then have "distinct (map fst gm)" by (simp add: distinct_firstKeys)
  from distinct_keys_explicit[OF this]
  have "gm = map (\<lambda>k. (k, the (map_of gm k))) (firstKeys guardKey atts)" by (simp add: ks)
  also have "\<dots> = map (\<lambda>k. (k, guardTally js acts atts k)) (firstKeys guardKey atts)"
  proof (rule map_cong[OF refl])
    fix k assume k: "k \<in> set (firstKeys guardKey atts)"
    have "map_of seeded k = Some (guardTally js [] atts k)"
      using k by (subst seeded) (simp add: map_of_keyed)
    then have "the (map_of gm k) =
                 foldl (\<lambda>g r. recordActivity js r g) (guardTally js [] atts k) (rowsOf activityKey k acts)"
      by (simp add: m)
    also have "\<dots> = guardTally js acts atts k"
      by (simp only: fold_recordActivity) (simp add: guardTally_def rowsOf_Nil onTimeActivities_def)
    finally show "(k, the (map_of gm k)) = (k, guardTally js acts atts k)" by simp
  qed
  finally show ?thesis .
qed

lemma processGuardData_explicit:
  assumes "processGuardData js acts atts = Inr out"
  shows "out = js_sort (\<lambda>a b. js_sub (performanceScore b) (performanceScore a))
                 (map guardProfileOf (object_values
                    (map (\<lambda>k. (k, guardTally js acts atts k)) (firstKeys guardKey atts))))"
proof -
  from assms obtain seeded gm where s: "seedGuards js atts = Inr seeded"
    and a: "forEach (activityStep js) acts seeded = Inr gm"
    and out: "out = js_sort (\<lambda>a b. js_sub (performanceScore b) (performanceScore a))
                      (map guardProfileOf (object_values gm))"
    by (auto simp: processGuardData_def split: sum.splits)
  show ?thesis by (simp add: out guardMetrics_state[OF s a])
qed

lemma processGuardData_succeeds:
  assumes "\<forall>r \<in> set atts. \<forall>k. guardKey r = Some k \<longrightarrow> k \<notin> set objectPrototypeKeys"
    and "\<forall>r \<in> set acts. \<forall>k. activityKey r = Some k \<longrightarrow>
           k \<in> set (firstKeys guardKey atts) \<or> k \<notin> set objectPrototypeKeys"
  shows "\<exists>out. processGuardData js acts atts = Inr out"
proof -
  from seedGuards_succeeds[OF assms(1)] obtain seeded where s: "seedGuards js atts = Inr seeded"
    by blast
  have "map fst seeded = firstKeys guardKey atts"
    by (simp add: seedGuards_state[OF s] comp_def)
  with assms(2) have "\<forall>r \<in> set acts. \<forall>k. activityKey r = Some k \<longrightarrow>
             k \<in> set (map fst seeded) \<or> k \<notin> set objectPrototypeKeys" by simp
  from activity_pass_succeeds[OF this] obtain gm
    where "forEach (activityStep js) acts seeded = Inr gm" by blast
  with s show ?thesis by (simp add: processGuardData_def)
qed

lemma guard_profile_source:
  assumes "processGuardData js acts atts = Inr out" and "p \<in> set out"
  shows "\<exists>k. rowsOf guardKey k atts \<noteq> [] \<and> p = guardProfileOf (guardTally js acts atts k)"
proof -
  from assms(2) obtain k where k: "k \<in> set (firstKeys guardKey atts)"
    and p: "p = guardProfileOf (guardTally js acts atts k)"
    by (auto simp: processGuardData_explicit[OF assms(1)] set_js_sort set_object_values)
  from k obtain r where "r \<in> set atts" "guardKey r = Some k" by (auto simp: set_firstKeys)
  then have "r \<in> set (rowsOf guardKey k atts)" by (simp add: rowsOf_def)
  then have "rowsOf guardKey k atts \<noteq> []" by auto
  with p show ?thesis by blast
qed

lemma processLocationCoverage_explicit:
  assumes "processLocationCoverage js data = Inr out"
  shows "out = js_sort (\<lambda>a b. js_sub (coverageRate b) (coverageRate a))
                 (map locationProfileOf (object_values
                    (map (\<lambda>l. (l, locationTally js data l)) (firstKeys postKey data))))"
  using assms
  by (auto simp: processLocationCoverage_def split: sum.splits dest: groupLocations_state)

lemma processLocationCoverage_succeeds:
  assumes "\<forall>r \<in> set data. \<forall>l. r ''Post Name'' = Some l \<longrightarrow> l \<notin> set objectPrototypeKeys"
  shows "\<exists>out. processLocationCoverage js data = Inr out"
  using groupLocations_succeeds[OF assms, of js] by (auto simp: processLocationCoverage_def)

lemma distinct_singleton_set:
  assumes "distinct xs" and "set xs = {a}"
  shows "xs = [a]"
proof (cases xs)
  case Nil
  with assms(2) show ?thesis by simp
next
  case (Cons b bs)
  with assms(2) have b: "b = a" and sub: "set bs \<subseteq> {a}" by auto
  from assms(1) Cons have "b \<notin> set bs" by simp
  with b sub have "bs = []" by (cases bs) auto
  then show ?thesis by (simp add: Cons b)
qed

lemma firstKeys_single:
  assumes "data \<noteq> []" and "\<forall>r \<in> set data. key r = Some k"
  shows "firstKeys key data = [k]"
proof (rule distinct_singleton_set)
  show "distinct (firstKeys key data)" by (rule distinct_firstKeys)
  from assms(1) obtain r where "r \<in> set data" by (cases data) auto
  with assms(2) show "set (firstKeys key data) = {k}" by (auto simp: set_firstKeys)
qed

lemma guard_profile_fields:
  assumes "processGuardData js acts atts = Inr out" and "p \<in> set out"
  shows "rowsOf guardKey (guard_id p) atts \<noteq> []"
    and "p = guardProfileOf (guardTally js acts atts (guard_id p))"
proof -
  from guard_profile_source[OF assms] obtain k
    where k: "rowsOf guardKey k atts \<noteq> []" and p: "p = guardProfileOf (guardTally js acts atts k)"
    by blast
  have "guard_id p = k" by (simp add: p guardProfileOf_def guardTally_def)
  with k p show "rowsOf guardKey (guard_id p) atts \<noteq> []"
    and "p = guardProfileOf (guardTally js acts atts (guard_id p))" by simp_all
qed

lemma length_onTime_late: "length (onTimeRows rs) + length (lateRows rs) = length rs"
  unfolding onTimeRows_def lateRows_def by (rule sum_length_filter_compl)

lemma rowsOf_seeded:
  assumes "k \<in> set (firstKeys guardKey atts)"
  shows "rowsOf activityKey k (filter (ofSeededGuard atts) acts) = rowsOf activityKey k acts"
proof -
  have "(activityKey r = Some k \<and> ofSeededGuard atts r) = (activityKey r = Some k)" for r
    using assms by (auto simp: ofSeededGuard_def)
  then show ?thesis by (simp add: rowsOf_def conj_commute)
qed

lemma guardTally_seeded:
  assumes "k \<in> set (firstKeys guardKey atts)"
  shows "guardTally js (filter (ofSeededGuard atts) acts) atts k = guardTally js acts atts k"
  by (simp add: guardTally_def rowsOf_seeded[OF assms])

lemma unseeded_activities_ignored:
  assumes "\<forall>r \<in> set acts. \<forall>k. activityKey r = Some k \<longrightarrow>
             k \<in> set (firstKeys guardKey atts) \<or> k \<notin> set objectPrototypeKeys"
  shows "processGuardData js acts atts = processGuardData js (filter (ofSeededGuard atts) acts) atts"
proof (cases "seedGuards js atts")
  case (Inl e)
  then show ?thesis by (simp add: processGuardData_def)
next
  case (Inr seeded)
  have keys: "map fst seeded = firstKeys guardKey atts"
    by (simp add: seedGuards_state[OF Inr] comp_def)
  have "\<forall>r \<in> set acts. \<forall>k. activityKey r = Some k \<longrightarrow>
          k \<in> set (map fst seeded) \<or> k \<notin> set objectPrototypeKeys"
    using assms by (simp add: keys)
  from activity_pass_succeeds[OF this] obtain gm
    where gm: "forEach (activityStep js) acts seeded = Inr gm" by blast
  have "\<forall>r \<in> set (filter (ofSeededGuard atts) acts). \<forall>k. activityKey r = Some k \<longrightarrow>
          k \<in> set (map fst seeded) \<or> k \<notin> set objectPrototypeKeys"
    by (auto simp: keys ofSeededGuard_def)
  from activity_pass_succeeds[OF this] obtain gm'
    where gm': "forEach (activityStep js) (filter (ofSeededGuard atts) acts) seeded = Inr gm'"
    by blast
  have "gm' = map (\<lambda>k. (k, guardTally js (filter (ofSeededGuard atts) acts) atts k))
                (firstKeys guardKey atts)"
    by (rule guardMetrics_state[OF Inr gm'])
  also have "\<dots> = map (\<lambda>k. (k, guardTally js acts atts k)) (firstKeys guardKey atts)"
    by (rule map_cong[OF refl]) (simp add: guardTally_seeded)
  also have "\<dots> = gm" by (rule guardMetrics_state[OF Inr gm, symmetric])
  finally show ?thesis by (simp add: processGuardData_def Inr gm gm')
qed

section \<open>The sample rows\<close>

lemma shiftRow_fields [simp]:
  "shiftRow g p l ''Post Name'' = Some p"
  "shiftRow g p l ''Full Name'' = Some g"
  "shiftRow g p l ''Service Number'' = Some g"
  "shiftRow g p l ''Late Hours'' = Some l"
  "shiftRow g p l ''Duty Hours'' = None"
  by (simp_all add: shiftRow_def)

lemma postOnlyRow_fields [simp]:
  "postOnlyRow p ''Post Name'' = Some p"
  "postOnlyRow p ''Full Name'' = None"
  "postOnlyRow p ''Service Number'' = None"
  "postOnlyRow p ''Late Hours'' = None"
  "postOnlyRow p ''Duty Hours'' = None"
  by (simp_all add: postOnlyRow_def)

lemma activityRow_fields [simp]:
  "activityRow g d t ''Service Number'' = Some g"
  "activityRow g d t ''Date/Time'' = Some d"
  "activityRow g d t ''Time Accuracy'' = Some t"
  "activityRow g d t ''Location Accuracy'' = None"
  by (simp_all add: activityRow_def)

lemma object_values_single: "object_values [(k, v)] = [v]"
  by (simp add: object_values_def)

lemma processLocationCoverage_single_post:
  assumes "data \<noteq> []" and "\<forall>r \<in> set data. r ''Post Name'' = Some l"
    and "l \<noteq> []" and "l \<notin> set objectPrototypeKeys"
  shows "processLocationCoverage js data = Inr [locationProfileOf (locationTally js data l)]"
proof -
  have "\<forall>r \<in> set data. \<forall>l'. r ''Post Name'' = Some l' \<longrightarrow> l' \<notin> set objectPrototypeKeys"
    using assms(2,4) by auto
  from processLocationCoverage_succeeds[OF this] obtain out
    where out: "processLocationCoverage js data = Inr out" by blast
  have "\<forall>r \<in> set data. postKey r = Some l"
    using assms(2,3) by (auto simp: postKey_Some)
  from firstKeys_single[OF assms(1) this] have "firstKeys postKey data = [l]" .
  with processLocationCoverage_explicit[OF out] have "out = [locationProfileOf (locationTally js data l)]"
    by (simp add: object_values_single js_sort_single)
  with out show ?thesis by simp
qed

lemma dutyHours_none:
  "\<forall>r \<in> set rows. r ''Duty Hours'' = None \<Longrightarrow> dutyHours js acc rows = acc"
  by (induction rows arbitrary: acc) (simp_all add: dutyHours_def addDutyHours_def)

lemma guardNames_absorb:
  "n \<in> set gs \<Longrightarrow> \<forall>r \<in> set rows. r ''Full Name'' = Some n \<Longrightarrow> guardNames gs rows = gs"
  by (induction rows) (simp_all add: guardNames_def set_add_def)

lemma guardNames_same:
  assumes "rows \<noteq> []" and "\<forall>r \<in> set rows. r ''Full Name'' = Some n"
  shows "guardNames [] rows = [n]"
proof -
  from assms obtain r rs where rows: "rows = r # rs" by (cases rows) auto
  have "guardNames [] rows = guardNames [n] rs"
    using assms(2) by (simp add: rows guardNames_def set_add_def)
  also have "\<dots> = [n]" by (rule guardNames_absorb) (use assms(2) rows in auto)
  finally show ?thesis .
qed

lemma exampleGateA_result:
  "processLocationCoverage js exampleGateA =
     Inr [exampleGateAProfile]"
proof -
  note h1 = percent_1_2 and h2 = percent_1_1
  have h3: "js_div (js_round (js_mul (js_div (Num 0) (Num 1)) (Num 10))) (Num 10) = Num 0"
    by (rule average_of_nothing) simp
  have t: "locationTally js exampleGateA ''Gate A'' =
      \<lparr>location = ''Gate A'', lshifts_total = 2, lshifts_covered = 1, lshifts_onTime = 1,
       guards = [''G1''], lshiftHours = Num 0\<rparr>"
    by (simp add: locationTally_def exampleGateA_def atPost_def staffed_def onTimeRows_def
          truthy_def guardNames_def set_add_def dutyHours_def addDutyHours_def)
  have "processLocationCoverage js exampleGateA =
          Inr [locationProfileOf (locationTally js exampleGateA ''Gate A'')]"
    by (rule processLocationCoverage_single_post)
       (simp_all add: exampleGateA_def objectPrototypeKeys_def)
  then show ?thesis
    by (simp add: t locationProfileOf_def num_def h1 h2 h3 exampleGateAProfile_def
          del: js_div.simps js_mul.simps js_round.simps)
qed

lemma filter_all: "\<forall>x \<in> set xs. P x \<Longrightarrow> filter P xs = xs"
  by (induction xs) simp_all

lemma postsCovered_absorb:
  "p \<in> set c \<Longrightarrow> \<forall>r \<in> set rows. r ''Post Name'' = p \<Longrightarrow> postsCovered c rows = c"
  by (induction rows) (simp_all add: postsCovered_def set_add_def)

lemma postsCovered_same:
  assumes "rows \<noteq> []" and "\<forall>r \<in> set rows. r ''Post Name'' = p"
  shows "postsCovered [] rows = [p]"
proof -
  from assms obtain r rs where rows: "rows = r # rs" by (cases rows) auto
  have "postsCovered [] rows = postsCovered [p] rs"
    using assms(2) by (simp add: rows postsCovered_def set_add_def)
  also have "\<dots> = [p]" by (rule postsCovered_absorb) (use assms(2) rows in auto)
  finally show ?thesis .
qed

lemma processGuardData_single_guard:
  assumes "atts \<noteq> []" and "\<forall>r \<in> set atts. guardKey r = Some g"
    and "g \<notin> set objectPrototypeKeys"
    and "\<forall>r \<in> set acts. \<forall>k. activityKey r = Some k \<longrightarrow> k = g"
  shows "processGuardData js acts atts = Inr [guardProfileOf (guardTally js acts atts g)]"
proof -
  have keys: "firstKeys guardKey atts = [g]" by (rule firstKeys_single[OF assms(1,2)])
  have "\<forall>r \<in> set atts. \<forall>k. guardKey r = Some k \<longrightarrow> k \<notin> set objectPrototypeKeys"
    using assms(2,3) by auto
  moreover have "\<forall>r \<in> set acts. \<forall>k. activityKey r = Some k \<longrightarrow>
                   k \<in> set (firstKeys guardKey atts) \<or> k \<notin> set objectPrototypeKeys"
    using assms(4) by (auto simp: keys)
  ultimately obtain out where out: "processGuardData js acts atts = Inr out"
    using processGuardData_succeeds by blast
  from processGuardData_explicit[OF out] have "out = [guardProfileOf (guardTally js acts atts g)]"
    by (simp add: keys object_values_single js_sort_single)
  with out show ?thesis by simp
qed

lemma guardKey_shiftRow [simp]: "g \<noteq> [] \<Longrightarrow> guardKey (shiftRow g p l) = Some g"
  by (simp add: guardKey_Some truthy_def)

lemma postKey_shiftRow [simp]: "p \<noteq> [] \<Longrightarrow> postKey (shiftRow g p l) = Some p"
  by (simp add: postKey_Some)

lemma activityKey_activityRow [simp]: "g \<noteq> [] \<Longrightarrow> activityKey (activityRow g d t) = Some g"
  by (simp add: activityKey_Some)

lemma G1_not_inherited: "''G1'' \<notin> set objectPrototypeKeys"
  by (simp add: objectPrototypeKeys_def)

lemma guardLocationAccurate_activityRow [simp]: "\<not> guardLocationAccurate js (activityRow g d t)"
  by (simp add: guardLocationAccurate_def)

lemma exampleShifts_tally:
  "guardTally js [] exampleShifts ''G1'' =
     exampleGuard"
  by (simp add: guardTally_def exampleShifts_def rowsOf_def onTimeRows_def lateRows_def
        postsCovered_def set_add_def dutyHours_def addDutyHours_def onTimeActivities_def
        exampleGuard_def)

lemma exampleShifts_result:
  "processGuardData js [] exampleShifts =
     Inr [exampleGuardProfile]"
proof -
  have "processGuardData js [] exampleShifts =
          Inr [guardProfileOf (guardTally js [] exampleShifts ''G1'')]"
    by (rule processGuardData_single_guard)
       (simp_all add: exampleShifts_def G1_not_inherited)
  then show ?thesis
    by (simp add: exampleShifts_tally guardProfileOf_def attendanceScore_def activityScore_def
          coverageScore_def num_def percent_1_2 score_example exampleGuard_def
          exampleGuardProfile_def
          del: js_div.simps js_mul.simps js_add.simps js_round.simps)
qed

lemma busy_tally:
  "guardTally js busyActivities busyShifts ''G1'' =
     \<lparr>guard_id = ''G1'', name = ''G1'', shifts_total = 28, shifts_onTime = 15, shifts_late = 13,
      activities_total = 14, activities_onTime = 1, activities_locationAccurate = 0,
      coverage = [Some ''Gate A''], shiftHours = Num 0\<rparr>"
proof -
  have rows: "rowsOf guardKey ''G1'' busyShifts = busyShifts"
    unfolding rowsOf_def by (rule filter_all) (auto simp: busyShifts_def)
  have acts: "rowsOf activityKey ''G1'' busyActivities = busyActivities"
    unfolding rowsOf_def by (rule filter_all) (auto simp: busyActivities_def)
  have cov: "postsCovered [] busyShifts = [Some ''Gate A'']"
    by (rule postsCovered_same) (auto simp: busyShifts_def)
  have hrs: "dutyHours js (Num 0) busyShifts = Num 0"
    by (rule dutyHours_none) (auto simp: busyShifts_def)
  show ?thesis
    by (simp add: guardTally_def rows acts cov hrs)
       (simp add: busyShifts_def busyActivities_def onTimeRows_def lateRows_def
          onTimeActivities_def)
qed

lemma busy_result:
  "processGuardData js busyActivities busyShifts =
     Inr [\<lparr>guard_id = ''G1'', name = ''G1'', shifts_total = 28, shifts_onTime = 15,
           shifts_late = 13, activities_total = 14, activities_onTime = 1,
           activities_locationAccurate = 0, coverage = [Some ''Gate A''], shiftHours = Num 0,
           attendanceRate = Num 54, activityComplianceRate = Num 4,
           coverageCount = 1, performanceScore = Num 27\<rparr>]"
proof -
  have "processGuardData js busyActivities busyShifts =
          Inr [guardProfileOf (guardTally js busyActivities busyShifts ''G1'')]"
    by (rule processGuardData_single_guard)
       (auto simp: busyShifts_def busyActivities_def G1_not_inherited)
  then show ?thesis
    by (simp add: busy_tally guardProfileOf_def attendanceScore_def activityScore_def
          coverageScore_def num_def percent_15_28 percent_1_28 score_busy
          del: js_div.simps js_mul.simps js_add.simps js_round.simps)
qed

lemma forty_tally:
  "locationTally js fortyShifts ''Gate A'' =
     \<lparr>location = ''Gate A'', lshifts_total = 40, lshifts_covered = 40, lshifts_onTime = 23,
      guards = [''G1''], lshiftHours = Num 0\<rparr>"
proof -
  have rows: "atPost ''Gate A'' fortyShifts = fortyShifts"
    unfolding atPost_def by (rule filter_all) (auto simp: fortyShifts_def)
  have st: "staffed fortyShifts = fortyShifts"
    unfolding staffed_def by (rule filter_all) (auto simp: fortyShifts_def truthy_def)
  have names: "guardNames [] fortyShifts = [''G1'']"
    by (rule guardNames_same) (auto simp: fortyShifts_def)
  have hrs: "dutyHours js (Num 0) fortyShifts = Num 0"
    by (rule dutyHours_none) (auto simp: fortyShifts_def)
  show ?thesis
    by (simp add: locationTally_def rows st names hrs)
       (simp add: fortyShifts_def onTimeRows_def)
qed

lemma forty_result:
  "processLocationCoverage js fortyShifts =
     Inr [\<lparr>location = ''Gate A'', lshifts_total = 40, lshifts_covered = 40, lshifts_onTime = 23,
           guards = [''G1''], lshiftHours = Num 0,
           coverageRate = Num 100, punctualityRate = Num 57,
           guardCount = None, averageShiftHours = Num 0\<rparr>]"
proof -
  have h3: "js_div (js_round (js_mul (js_div (Num 0) (Num 40)) (Num 10))) (Num 10) = Num 0"
    by (rule average_of_nothing) simp
  have "processLocationCoverage js fortyShifts =
          Inr [locationProfileOf (locationTally js fortyShifts ''Gate A'')]"
    by (rule processLocationCoverage_single_post)
       (auto simp: fortyShifts_def objectPrototypeKeys_def)
  then show ?thesis
    by (simp add: forty_tally locationProfileOf_def num_def percent_40_40 percent_23_40 h3
          del: js_div.simps js_mul.simps js_round.simps)
qed

lemma exampleShifts_seeded:
  "seedGuards js exampleShifts = Inr [(''G1'', exampleGuard)]"
proof -
  have "\<forall>r \<in> set exampleShifts. \<forall>k. guardKey r = Some k \<longrightarrow> k \<notin> set objectPrototypeKeys"
    by (auto simp: exampleShifts_def G1_not_inherited)
  from seedGuards_succeeds[OF this] obtain obj where obj: "seedGuards js exampleShifts = Inr obj"
    by blast
  have "firstKeys guardKey exampleShifts = [''G1'']"
    by (rule firstKeys_single) (auto simp: exampleShifts_def)
  with seedGuards_state[OF obj] have "obj = [(''G1'', guardTally js [] exampleShifts ''G1'')]"
    by simp
  with obj show ?thesis by (simp add: exampleShifts_tally)
qed

lemma isoHours_nine_fifteen: "isoHours ''2024-10-19T09:15:00'' = Some 9"
  by (simp add: isoHours_def twoDigits_def digitVal_def)

lemma isoHours_nine_fortyfive: "isoHours ''2024-10-19T09:45:00'' = Some 9"
  by (simp add: isoHours_def twoDigits_def digitVal_def)

lemma isoHours_hour_25: "isoHours ''2024-10-19T25:00:00'' = None"
  by (simp add: isoHours_def twoDigits_def digitVal_def)

lemma locationAccurateOf_activityRow [simp]: "\<not> locationAccurateOf js (activityRow g d t)"
  by (simp add: locationAccurateOf_def)

lemma percent_0_2: "js_round (js_mul (js_div (Num 0) (Num 2)) (Num 100)) = Num 0"
  by (simp add: round64_def js_round_zero del: js_round.simps)

section \<open>Rates lie between 0 and 100\<close>

lemma round64_nonneg:
  assumes "0 \<le> x"
  shows "(\<exists>r. round64 x = Num r \<and> 0 \<le> r) \<or> round64 x = PosInf"
proof (cases "x = 0")
  case True
  then show ?thesis by (simp add: round64_def)
next
  case False
  with assms have pos: "0 < x" by simp
  have "0 \<le> round_even (x / 2 powi quantum x)"
    by (rule round_even_nonneg) (use pos in simp)
  then have "0 \<le> (of_int (round_even (x / 2 powi quantum x)) :: rat) * 2 powi quantum x"
    by simp
  then show ?thesis using pos by (auto simp: round64_def round64_pos_def Let_def)
qed

lemma js_add_bounded:
  assumes "0 \<le> a" "a \<le> of_nat m" "0 \<le> b" "b \<le> of_nat n" "m + n < 2 ^ 53"
  shows "\<exists>s. js_add (Num a) (Num b) = Num s \<and> 0 \<le> s \<and> s \<le> of_nat (m + n)"
proof -
  have "0 \<le> a + b" and "a + b \<le> of_nat (m + n)" using assms(1-4) by simp_all
  from round64_bounded[OF this assms(5)] show ?thesis by simp
qed

lemma score_part_range:
  assumes "a \<le> b" and "0 < b" and "n < 2 ^ 53"
  shows "\<exists>s. js_mul (js_div (num a) (num b)) (Num (of_nat n)) = Num s \<and> 0 \<le> s \<and> s \<le> of_nat n"
proof -
  obtain r where r: "js_div (num a) (num b) = Num r" "0 \<le> r" "r \<le> 1"
    using js_div_ratio[OF assms(1,2)] by blast
  from js_mul_scale[OF r(2,3) assms(3)] show ?thesis by (simp only: r(1))
qed

lemma attendanceScore_range:
  assumes "a \<le> b"
  shows "\<exists>s. attendanceScore a b = Num s \<and> 0 \<le> s \<and> s \<le> 30"
proof (cases "0 < b")
  case True
  have "(30::nat) < 2 ^ 53" by simp
  from score_part_range[OF assms True this] show ?thesis
    using True by (simp add: attendanceScore_def)
next
  case False
  then show ?thesis by (simp add: attendanceScore_def)
qed

lemma activityScore_range:
  assumes "a \<le> t" and "c \<le> t"
  shows "\<exists>s. activityScore a c t = Num s \<and> 0 \<le> s \<and> s \<le> 40"
proof (cases "0 < t")
  case True
  have "(40::nat) < 2 ^ 53" by simp
  moreover have "a + c \<le> 2 * t" using assms by simp
  moreover have "0 < 2 * t" using True by simp
  ultimately have "\<exists>s. js_mul (js_div (num (a + c)) (num (2 * t))) (Num (of_nat 40)) = Num s
                      \<and> 0 \<le> s \<and> s \<le> of_nat 40"
    by (intro score_part_range)
  then show ?thesis using True by (simp add: activityScore_def)
next
  case False
  then show ?thesis by (simp add: activityScore_def)
qed

lemma coverageScore_range: "\<exists>s. coverageScore n = Num s \<and> 0 \<le> s \<and> s \<le> 30"
proof -
  have "(\<exists>r. round64 (of_nat n / 3) = Num r \<and> 0 \<le> r) \<or> round64 (of_nat n / 3) = PosInf"
    by (rule round64_nonneg) simp
  then have d: "(\<exists>r. js_div (num n) (Num 3) = Num r \<and> 0 \<le> r) \<or> js_div (num n) (Num 3) = PosInf"
    by (simp add: num_def)
  have m: "(\<exists>v. js_mul (js_div (num n) (Num 3)) (Num 30) = Num v \<and> 0 \<le> v)
            \<or> js_mul (js_div (num n) (Num 3)) (Num 30) = PosInf"
  proof (rule disjE[OF d])
    assume "\<exists>r. js_div (num n) (Num 3) = Num r \<and> 0 \<le> r"
    then obtain r where r: "js_div (num n) (Num 3) = Num r" "0 \<le> r" by blast
    have "(\<exists>v. round64 (r * 30) = Num v \<and> 0 \<le> v) \<or> round64 (r * 30) = PosInf"
      by (rule round64_nonneg) (use r(2) in simp)
    then show ?thesis by (simp add: r(1))
  next
    assume "js_div (num n) (Num 3) = PosInf"
    then show ?thesis by (simp add: signed_inf_def)
  qed
  show ?thesis
  proof (rule disjE[OF m])
    assume "\<exists>v. js_mul (js_div (num n) (Num 3)) (Num 30) = Num v \<and> 0 \<le> v"
    then obtain v where v: "js_mul (js_div (num n) (Num 3)) (Num 30) = Num v" "0 \<le> v" by blast
    then show ?thesis by (simp add: coverageScore_def js_min_def)
  next
    assume "js_mul (js_div (num n) (Num 3)) (Num 30) = PosInf"
    then show ?thesis by (simp add: coverageScore_def js_min_def)
  qed
qed

lemma performance_range:
  assumes "a \<le> b" and "c \<le> t" and "d \<le> t"
  shows "\<exists>k. js_round (js_add (js_add (attendanceScore a b) (activityScore c d t)) (coverageScore n))
               = Num (of_nat k) \<and> k \<le> 100"
proof -
  obtain s1 where s1: "attendanceScore a b = Num s1" "0 \<le> s1" "s1 \<le> 30"
    using attendanceScore_range[OF assms(1)] by blast
  obtain s2 where s2: "activityScore c d t = Num s2" "0 \<le> s2" "s2 \<le> 40"
    using activityScore_range[OF assms(2,3)] by blast
  obtain s3 where s3: "coverageScore n = Num s3" "0 \<le> s3" "s3 \<le> 30"
    using coverageScore_range by blast
  have "\<exists>u. js_add (Num s1) (Num s2) = Num u \<and> 0 \<le> u \<and> u \<le> of_nat (30 + 40)"
    by (rule js_add_bounded) (use s1 s2 in simp_all)
  then obtain u where u: "js_add (Num s1) (Num s2) = Num u" "0 \<le> u" "u \<le> of_nat 70" by auto
  have "\<exists>w. js_add (Num u) (Num s3) = Num w \<and> 0 \<le> w \<and> w \<le> of_nat (70 + 30)"
    by (rule js_add_bounded) (use u s3 in simp_all)
  then obtain w where w: "js_add (Num u) (Num s3) = Num w" "0 \<le> w" "w \<le> of_nat 100" by auto
  from js_round_range[OF w(2,3)] show ?thesis by (simp only: s1(1) s2(1) s3(1) u(1) w(1))
qed

lemma guard_rates_in_range:
  assumes "processGuardData js acts atts = Inr out" and "p \<in> set out"
  shows "(\<exists>t. attendanceRate p = Num (of_nat t) \<and> t \<le> 100)
         \<and> (\<exists>t. activityComplianceRate p = Num (of_nat t) \<and> t \<le> 100)
         \<and> (\<exists>t. performanceScore p = Num (of_nat t) \<and> t \<le> 100)"
proof -
  from guard_profile_source[OF assms] obtain k
    where p: "p = guardProfileOf (guardTally js acts atts k)" by blast
  define g where "g = guardTally js acts atts k"
  have le1: "shifts_onTime g \<le> shifts_total g"
    by (simp add: g_def guardTally_def onTimeRows_def)
  have le2: "activities_onTime g \<le> activities_total g"
    by (simp add: g_def guardTally_def onTimeActivities_def)
  have le3: "activities_locationAccurate g \<le> activities_total g"
    by (simp add: g_def guardTally_def)
  have zero: "\<exists>t. Num 0 = Num (of_nat t) \<and> t \<le> 100" by (rule exI[of _ 0]) simp
  have a: "\<exists>t. attendanceRate p = Num (of_nat t) \<and> t \<le> 100"
  proof (cases "0 < shifts_total g")
    case True
    from percentage_range[OF le1 True] show ?thesis
      using True by (simp add: p guardProfileOf_def g_def)
  next
    case False
    then show ?thesis using zero by (simp add: p guardProfileOf_def g_def)
  qed
  have b: "\<exists>t. activityComplianceRate p = Num (of_nat t) \<and> t \<le> 100"
  proof (cases "0 < activities_total g")
    case True
    have "activities_onTime g + activities_locationAccurate g \<le> 2 * activities_total g"
      using le2 le3 by simp
    moreover have "0 < 2 * activities_total g" using True by simp
    ultimately show ?thesis
      using percentage_range True by (simp add: p guardProfileOf_def g_def)
  next
    case False
    then show ?thesis using zero by (simp add: p guardProfileOf_def g_def)
  qed
  have c: "\<exists>t. performanceScore p = Num (of_nat t) \<and> t \<le> 100"
    using performance_range[OF le1 le2 le3] by (simp add: p guardProfileOf_def g_def)
  from a b c show ?thesis by blast
qed

lemma location_rates_in_range:
  assumes "processLocationCoverage js data = Inr out" and "p \<in> set out"
  shows "(\<exists>t. coverageRate p = Num (of_nat t) \<and> t \<le> 100)
         \<and> (\<exists>t. punctualityRate p = Num (of_nat t) \<and> t \<le> 100)"
proof -
  from location_profile_source[OF assms] obtain l
    where l: "atPost l data \<noteq> []" and p: "p = locationProfileOf (locationTally js data l)"
    by blast
  define m where "m = locationTally js data l"
  have le1: "lshifts_covered m \<le> lshifts_total m"
    by (simp add: m_def locationTally_def staffed_def)
  have le2: "lshifts_onTime m \<le> lshifts_covered m"
    by (simp add: m_def locationTally_def onTimeRows_def)
  have pos: "0 < lshifts_total m" using l by (simp add: m_def locationTally_def)
  have a: "\<exists>t. coverageRate p = Num (of_nat t) \<and> t \<le> 100"
    using percentage_range[OF le1 pos] by (simp add: p locationProfileOf_def m_def)
  have b: "\<exists>t. punctualityRate p = Num (of_nat t) \<and> t \<le> 100"
  proof (cases "0 < lshifts_covered m")
    case True
    from percentage_range[OF le2 True] show ?thesis
      using True by (simp add: p locationProfileOf_def m_def)
  next
    case False
    have "\<exists>t. Num 0 = Num (of_nat t) \<and> t \<le> 100" by (rule exI[of _ 0]) simp
    then show ?thesis using False by (simp add: p locationProfileOf_def m_def)
  qed
  from a b show ?thesis by blast
qed

lemma flag_le_one: "flag c \<le> 1"
  by (simp add: flag_def)

lemma map_with_checks:
  assumes "map_with f om xs = (om', ys)"
    and "\<And>s x s' y. f s x = (s', y) \<Longrightarrow>
           totalChecks s' = totalChecks s + 3 \<and> passedChecks s \<le> passedChecks s'
           \<and> passedChecks s' \<le> passedChecks s + 3"
  shows "totalChecks om' = totalChecks om + 3 * length xs
         \<and> passedChecks om' \<le> passedChecks om + 3 * length xs"
  using assms(1)
proof (induction xs arbitrary: om om' ys)
  case Nil
  then show ?case by simp
next
  case (Cons x xs)
  obtain s1 y where f: "f om x = (s1, y)" by (cases "f om x")
  obtain s2 zs where r: "map_with f s1 xs = (s2, zs)" by (cases "map_with f s1 xs")
  from Cons.prems f r have "om' = s2" by simp
  with Cons.IH[OF r] assms(2)[OF f] show ?case by simp
qed

lemma three_flags: "flag a + flag b + flag c \<le> 3"
  by (simp add: flag_def)

lemma checkLocation_counts:
  assumes "checkLocation s x = (s', y)"
  shows "totalChecks s' = totalChecks s + 3 \<and> passedChecks s \<le> passedChecks s'
         \<and> passedChecks s' \<le> passedChecks s + 3"
  using assms three_flags by (auto simp: checkLocation_def Let_def)

lemma checkGuard_counts:
  assumes "checkGuard s x = (s', y)"
  shows "totalChecks s' = totalChecks s + 3 \<and> passedChecks s \<le> passedChecks s'
         \<and> passedChecks s' \<le> passedChecks s + 3"
  using assms three_flags by (auto simp: checkGuard_def Let_def)

lemma overall_in_range:
  assumes "locations \<noteq> [] \<or> guardList \<noteq> []"
  shows "\<exists>t. overall (calculateComplianceMetrics activities locations guardList) = Num (of_nat t)
             \<and> t \<le> 100"
proof -
  obtain om1 lcs where l: "map_with checkLocation \<lparr>totalChecks = 0, passedChecks = 0\<rparr> locations = (om1, lcs)"
    by (cases "map_with checkLocation \<lparr>totalChecks = 0, passedChecks = 0\<rparr> locations")
  obtain om2 gcs where g: "map_with checkGuard om1 guardList = (om2, gcs)"
    by (cases "map_with checkGuard om1 guardList")
  have c1: "totalChecks om1 = 3 * length locations" "passedChecks om1 \<le> 3 * length locations"
    using map_with_checks[OF l checkLocation_counts] by simp_all
  have c2: "totalChecks om2 = totalChecks om1 + 3 * length guardList"
    "passedChecks om2 \<le> passedChecks om1 + 3 * length guardList"
    using map_with_checks[OF g checkGuard_counts] by simp_all
  have le: "passedChecks om2 \<le> totalChecks om2" using c1 c2 by simp
  have pos: "0 < totalChecks om2" using assms c1 c2 by auto
  have "overall (calculateComplianceMetrics activities locations guardList) =
          js_round (js_mul (js_div (num (passedChecks om2)) (num (totalChecks om2))) (Num 100))"
    by (simp add: calculateComplianceMetrics_def l g)
  with percentage_range[OF le pos] show ?thesis by simp
qed

section \<open>The hourly aggregator computes the tallies of its reference description\<close>

lemma strict_eq_Some: "strict_eq a (Some h) \<longleftrightarrow> a = Some h"
  by (cases a) (simp_all add: strict_eq_def)

lemma strict_eq_None: "\<not> strict_eq a None"
  by (cases a) (simp_all add: strict_eq_def)

lemma addToExisting_None: "addToExisting None m acc = None"
  by (induction acc) (simp_all add: strict_eq_None)

lemma addToExisting_absent:
  "filter (\<lambda>b. hour b = Some h) acc = [] \<Longrightarrow> addToExisting (Some h) m acc = None"
  by (induction acc) (simp_all add: strict_eq_Some split: if_splits)

lemma addToExisting_present:
  assumes "filter (\<lambda>b. hour b = Some h) acc = b0 # bs"
  shows "\<exists>acc'. addToExisting (Some h) m acc = Some acc'
           \<and> filter (\<lambda>b. hour b = Some h) acc' =
               b0\<lparr>total := total b0 + m_total m, onTime := onTime b0 + m_onTime m,
                  locationAccurate := locationAccurate b0 + m_locationAccurate m,
                  delayed := delayed b0 + m_delayed m\<rparr> # bs
           \<and> (\<forall>x. x \<noteq> h \<longrightarrow>
                 filter (\<lambda>b. hour b = Some x) acc' = filter (\<lambda>b. hour b = Some x) acc)
           \<and> map hour acc' = map hour acc"
  using assms
proof (induction acc)
  case Nil
  then show ?case by simp
next
  case (Cons b acc)
  show ?case
  proof (cases "hour b = Some h")
    case True
    with Cons.prems have "b0 = b" and "bs = filter (\<lambda>b. hour b = Some h) acc" by simp_all
    with True show ?thesis by (simp add: strict_eq_Some)
  next
    case False
    with Cons.prems have "filter (\<lambda>b. hour b = Some h) acc = b0 # bs" by simp
    from Cons.IH[OF this] obtain acc' where a: "addToExisting (Some h) m acc = Some acc'"
      and f: "filter (\<lambda>b. hour b = Some h) acc' =
               b0\<lparr>total := total b0 + m_total m, onTime := onTime b0 + m_onTime m,
                  locationAccurate := locationAccurate b0 + m_locationAccurate m,
                  delayed := delayed b0 + m_delayed m\<rparr> # bs"
      and o: "\<forall>x. x \<noteq> h \<longrightarrow>
                 filter (\<lambda>b. hour b = Some x) acc' = filter (\<lambda>b. hour b = Some x) acc"
      and k: "map hour acc' = map hour acc"
      by blast
    have "addToExisting (Some h) m (b # acc) = Some (b # acc')"
      using False a by (simp add: strict_eq_Some)
    with False f o k show ?thesis by simp
  qed
qed

lemma hourlyStep_alt:
  "hourlyStep js acc r =
     (if \<not> timed r then acc
      else case addToExisting (hourOf js r) (activityMetrics js r) acc of
             Some acc' \<Rightarrow> acc'
           | None \<Rightarrow> acc @ [newBucket (hourOf js r) (activityMetrics js r)])"
  by (auto simp: hourlyStep_def timed_def hourOf_def truthy_def Let_def split: option.splits)

lemma hourlyData_snoc: "hourlyData js (xs @ [x]) = hourlyStep js (hourlyData js xs) x"
  by (simp add: hourlyData_def)

lemma rowsAtHour_snoc:
  "rowsAtHour js h (xs @ [x]) =
     (if timed x \<and> hourOf js x = Some h then rowsAtHour js h xs @ [x] else rowsAtHour js h xs)"
  by (simp add: rowsAtHour_def)

lemma hourTally_first:
  "hourTally js h [x] = newBucket (Some h) (activityMetrics js x)"
  by (simp add: hourTally_def newBucket_def activityMetrics_def onTimeActivities_def
        delayedRow_def split: option.splits)

lemma hourTally_snoc:
  assumes "rows \<noteq> []"
  shows "hourTally js h (rows @ [x]) =
     (hourTally js h rows)
       \<lparr>total := total (hourTally js h rows) + m_total (activityMetrics js x),
        onTime := onTime (hourTally js h rows) + m_onTime (activityMetrics js x),
        locationAccurate := locationAccurate (hourTally js h rows)
                             + m_locationAccurate (activityMetrics js x),
        delayed := delayed (hourTally js h rows) + m_delayed (activityMetrics js x)\<rparr>"
  using assms
  by (simp add: hourTally_def activityMetrics_def onTimeActivities_def delayedRow_def
        split: option.splits)

lemma hourly_buckets:
  "filter (\<lambda>b. hour b = Some h) (hourlyData js data) =
     (if rowsAtHour js h data = [] then [] else [hourTally js h (rowsAtHour js h data)])"
proof (induction data arbitrary: h rule: rev_induct)
  case Nil
  show ?case by (simp add: hourlyData_def rowsAtHour_def)
next
  case (snoc x xs)
  let ?acc = "hourlyData js xs"
  let ?m = "activityMetrics js x"
  show ?case
  proof (cases "timed x")
    case False
    then show ?thesis by (simp add: hourlyData_snoc hourlyStep_alt rowsAtHour_snoc snoc.IH)
  next
    case True
    show ?thesis
    proof (cases "hourOf js x")
      case None
      then show ?thesis
        using True
        by (simp add: hourlyData_snoc hourlyStep_alt rowsAtHour_snoc snoc.IH
              addToExisting_None newBucket_def)
    next
      case (Some hx)
      show ?thesis
      proof (cases "rowsAtHour js hx xs = []")
        case e: True
        then have "filter (\<lambda>b. hour b = Some hx) ?acc = []" by (simp add: snoc.IH)
        then have "addToExisting (Some hx) ?m ?acc = None" by (rule addToExisting_absent)
        then have step: "hourlyData js (xs @ [x]) = ?acc @ [newBucket (Some hx) ?m]"
          using True Some by (simp add: hourlyData_snoc hourlyStep_alt)
        show ?thesis
        proof (cases "h = hx")
          case True
          then show ?thesis
            using \<open>timed x\<close> Some e
            by (simp add: step rowsAtHour_snoc snoc.IH hourTally_first) (simp add: newBucket_def)
        next
          case False
          then show ?thesis
            using \<open>timed x\<close> Some
            by (simp add: step rowsAtHour_snoc snoc.IH) (simp add: newBucket_def)
        qed
      next
        case ne: False
        then have "filter (\<lambda>b. hour b = Some hx) ?acc = hourTally js hx (rowsAtHour js hx xs) # []"
          by (simp add: snoc.IH)
        from addToExisting_present[OF this, of ?m] obtain acc'
          where a: "addToExisting (Some hx) ?m ?acc = Some acc'"
          and f: "filter (\<lambda>b. hour b = Some hx) acc' = [hourTally js hx (rowsAtHour js hx xs @ [x])]"
          and o: "\<forall>y. y \<noteq> hx \<longrightarrow>
                 filter (\<lambda>b. hour b = Some y) acc' = filter (\<lambda>b. hour b = Some y) ?acc"
          by (auto simp: hourTally_snoc[OF ne])
        have step: "hourlyData js (xs @ [x]) = acc'"
          using True Some a by (simp add: hourlyData_snoc hourlyStep_alt)
        show ?thesis
        proof (cases "h = hx")
          case True
          then show ?thesis using \<open>timed x\<close> Some by (simp add: step f rowsAtHour_snoc)
        next
          case False
          then show ?thesis
            using \<open>timed x\<close> Some o by (simp add: step rowsAtHour_snoc snoc.IH)
        qed
      qed
    qed
  qed
qed

lemma length_filter_js_insert:
  "length (filter P (js_insert cmp x ys)) = length (filter P (x # ys))"
  by (induction ys) auto

lemma length_filter_js_sort: "length (filter P (js_sort cmp xs)) = length (filter P xs)"
proof (induction xs)
  case Nil
  show ?case by (simp add: js_sort_def)
next
  case (Cons x xs)
  have "js_sort cmp (x # xs) = js_insert cmp x (js_sort cmp xs)" by (simp add: js_sort_def)
  then show ?case using Cons.IH by (simp add: length_filter_js_insert)
qed

lemma filter_js_sort_single:
  assumes "filter P xs = [b]"
  shows "filter P (js_sort cmp xs) = [b]"
proof -
  have "length (filter P (js_sort cmp xs)) = 1"
    by (simp add: length_filter_js_sort assms)
  then obtain c where c: "filter P (js_sort cmp xs) = [c]"
    by (cases "filter P (js_sort cmp xs)") auto
  have "set (filter P (js_sort cmp xs)) = set (filter P xs)" by (simp add: set_js_sort)
  then have "c = b" by (simp add: c assms)
  with c show ?thesis by simp
qed

lemma distinct_map_js_insert:
  "distinct (map f (js_insert cmp x ys)) \<longleftrightarrow> f x \<notin> f ` set ys \<and> distinct (map f ys)"
  by (induction ys) (auto simp: set_js_insert)

lemma distinct_map_js_sort: "distinct (map f (js_sort cmp xs)) = distinct (map f xs)"
proof (induction xs)
  case Nil
  show ?case by (simp add: js_sort_def)
next
  case (Cons x xs)
  have "js_sort cmp (x # xs) = js_insert cmp x (js_sort cmp xs)" by (simp add: js_sort_def)
  then show ?case using Cons.IH by (simp add: distinct_map_js_insert set_js_sort)
qed

lemma sorted_js_insert:
  assumes "\<forall>y \<in> set ys. js_lt (Num 0) (cmp x y) \<longleftrightarrow> key y < key x"
    and "sorted (map key ys)"
  shows "sorted (map key (js_insert cmp x ys))"
  using assms
proof (induction ys)
  case Nil
  then show ?case by simp
next
  case (Cons y ys)
  show ?case
  proof (cases "js_lt (Num 0) (cmp x y)")
    case True
    then have "key y < key x" using Cons.prems(1) by simp
    moreover have "sorted (map key (js_insert cmp x ys))"
      using Cons.IH Cons.prems by simp
    ultimately show ?thesis
      using True Cons.prems(2) by (auto simp: set_js_insert)
  next
    case False
    then have "key x \<le> key y" using Cons.prems(1) by (simp add: not_less)
    then show ?thesis using False Cons.prems(2) by auto
  qed
qed

lemma sorted_js_sort:
  fixes key :: "'a \<Rightarrow> nat"
  assumes "\<forall>x \<in> set xs. \<forall>y \<in> set xs. js_lt (Num 0) (cmp x y) \<longleftrightarrow> key y < key x"
  shows "sorted (map key (js_sort cmp xs))"
  using assms
proof (induction xs)
  case Nil
  show ?case by (simp add: js_sort_def)
next
  case (Cons x xs)
  have s: "js_sort cmp (x # xs) = js_insert cmp x (js_sort cmp xs)" by (simp add: js_sort_def)
  have "sorted (map key (js_sort cmp xs))" using Cons by simp
  moreover have "\<forall>y \<in> set (js_sort cmp xs). js_lt (Num 0) (cmp x y) \<longleftrightarrow> key y < key x"
    using Cons.prems by (simp add: set_js_sort)
  ultimately show ?case unfolding s by (intro sorted_js_insert)
qed

lemma binade_ge:
  assumes "2 powi k \<le> x"
  shows "k \<le> binade x"
proof -
  have "(0::rat) < 2 powi k" by simp
  then have pos: "0 < x" using assms by (rule less_le_trans)
  show ?thesis
  proof (rule ccontr)
    assume "\<not> k \<le> binade x"
    then have "binade x + 1 \<le> k" by simp
    then have "(2::rat) powi (binade x + 1) \<le> 2 powi k" by (rule power_int_increasing) simp
    also note assms
    finally show False using binade_bounds(2)[OF pos] by simp
  qed
qed

lemma round_even_ge:
  assumes "of_int k \<le> x"
  shows "k \<le> round_even x"
proof -
  have "k \<le> \<lfloor>x\<rfloor>" using assms by (simp add: le_floor_iff)
  then show ?thesis by (simp add: round_even_def Let_def)
qed

lemma round64_pos_positive:
  assumes "1 \<le> x"
  shows "js_lt (Num 0) (round64_pos x)"
proof -
  have "(2::rat) powi 0 \<le> x" using assms by simp
  then have b: "0 \<le> binade x" by (rule binade_ge)
  have pos: "0 < x" using assms by simp
  define q where "q = quantum x"
  have q: "q \<le> binade x" using b by (simp add: q_def quantum_def)
  have "(2::rat) powi q \<le> 2 powi binade x" using q by (rule power_int_increasing) simp
  also have "\<dots> \<le> x" by (rule binade_bounds(1)[OF pos])
  finally have "of_int 1 \<le> x / 2 powi q" by (simp add: pos_le_divide_eq)
  then have "1 \<le> round_even (x / 2 powi q)" by (rule round_even_ge)
  then have "(0::rat) < of_int (round_even (x / 2 powi q))" by simp
  then have "0 < of_int (round_even (x / 2 powi q)) * (2::rat) powi q" by simp
  then show ?thesis by (simp add: round64_pos_def Let_def q_def)
qed

lemma round64_neg_not_positive:
  assumes "1 \<le> x"
  shows "\<not> js_lt (Num 0) (js_neg (round64_pos x))"
  using round64_pos_positive[OF assms] by (cases "round64_pos x") simp_all

lemma hour_diff_Some: "hour_diff (Some x) (Some y) = round64 (of_nat x - of_nat y)"
  by (simp add: hour_diff_def js_sub_def num_def)

lemma hour_diff_sign: "js_lt (Num 0) (hour_diff (Some x) (Some y)) \<longleftrightarrow> y < x"
proof -
  note d = hour_diff_Some
  consider "x = y" | "y < x" | "x < y" by linarith
  then show ?thesis
  proof cases
    case 1
    then have "hour_diff (Some x) (Some y) = Num 0" by (simp add: d round64_def)
    then show ?thesis using 1 by simp
  next
    case 2
    then have "(1::rat) \<le> of_nat x - of_nat y"
      by (metis Suc_leI of_nat_1 of_nat_diff of_nat_le_iff less_imp_le zero_less_diff One_nat_def)
    then show ?thesis using 2 round64_pos_positive by (simp add: d round64_def)
  next
    case 3
    then have one: "(1::rat) \<le> of_nat y - of_nat x"
      by (metis Suc_leI of_nat_1 of_nat_diff of_nat_le_iff less_imp_le zero_less_diff One_nat_def)
    have neg: "(of_nat x :: rat) - of_nat y < 0" using 3 by simp
    have "round64 (of_nat x - of_nat y) = js_neg (round64_pos (of_nat y - of_nat x))"
      using neg by (simp add: round64_def)
    then show ?thesis using 3 round64_neg_not_positive[OF one] by (simp add: d)
  qed
qed

lemma missing_timestamps_skipped:
  "processActivityData js data = processActivityData js (filter timed data)"
proof -
  have "foldl (hourlyStep js) acc (filter timed data) = foldl (hourlyStep js) acc data" for acc
    by (induction data arbitrary: acc) (simp_all add: hourlyStep_alt)
  then show ?thesis by (simp add: processActivityData_def hourlyData_def)
qed

lemma valid_hour_bucket:
  assumes "r \<in> set data" and "timed r" and "hourOf js r = Some h"
  shows "r \<in> set (rowsAtHour js h data)"
    and "filter (\<lambda>b. hour b = Some h) (processActivityData js data) =
           [hourTally js h (rowsAtHour js h data)]"
proof -
  show r: "r \<in> set (rowsAtHour js h data)" using assms by (simp add: rowsAtHour_def)
  then have "rowsAtHour js h data \<noteq> []" by auto
  then have "filter (\<lambda>b. hour b = Some h) (hourlyData js data) =
               [hourTally js h (rowsAtHour js h data)]"
    by (simp add: hourly_buckets)
  then show "filter (\<lambda>b. hour b = Some h) (processActivityData js data) =
           [hourTally js h (rowsAtHour js h data)]"
    unfolding processActivityData_def by (rule filter_js_sort_single)
qed

lemma hours_of_buckets:
  "set (map hour (hourlyData js data)) = hourOf js ` {r \<in> set data. timed r}"
proof (induction data rule: rev_induct)
  case Nil
  show ?case by (simp add: hourlyData_def)
next
  case (snoc x xs)
  show ?case
  proof (cases "timed x")
    case False
    then show ?thesis using snoc.IH by (simp add: hourlyData_snoc hourlyStep_alt) blast
  next
    case True
    show ?thesis
    proof (cases "addToExisting (hourOf js x) (activityMetrics js x) (hourlyData js xs)")
      case None
      then show ?thesis
        using True snoc.IH
        by (simp add: hourlyData_snoc hourlyStep_alt newBucket_def) blast
    next
      case (Some acc')
      then obtain hx where hx: "hourOf js x = Some hx"
        by (cases "hourOf js x") (simp_all add: addToExisting_None)
      have "filter (\<lambda>b. hour b = Some hx) (hourlyData js xs) \<noteq> []"
        using Some hx addToExisting_absent[of hx "hourlyData js xs" "activityMetrics js x"] by auto
      then obtain b0 bs where f: "filter (\<lambda>b. hour b = Some hx) (hourlyData js xs) = b0 # bs"
        by (cases "filter (\<lambda>b. hour b = Some hx) (hourlyData js xs)") auto
      from addToExisting_present[OF f, of "activityMetrics js x"] Some hx
      have k: "map hour acc' = map hour (hourlyData js xs)" by auto
      have "b0 \<in> set (filter (\<lambda>b. hour b = Some hx) (hourlyData js xs))" by (simp add: f)
      then have "Some hx \<in> set (map hour (hourlyData js xs))" by (auto intro: rev_image_eqI)
      then have "hourOf js x \<in> hourOf js ` {r \<in> set xs. timed r}" using snoc.IH hx by simp
      then have "hourOf js ` {r \<in> set (xs @ [x]). timed r} = hourOf js ` {r \<in> set xs. timed r}"
        using True by auto
      then show ?thesis
        using True Some k snoc.IH by (simp add: hourlyData_snoc hourlyStep_alt)
    qed
  qed
qed

lemma distinct_by_filter:
  assumes "\<And>v. length (filter (\<lambda>b. f b = v) xs) \<le> 1"
  shows "distinct (map f xs)"
  using assms
proof (induction xs)
  case Nil
  show ?case by simp
next
  case (Cons x xs)
  have "length (filter (\<lambda>b. f b = v) xs) \<le> 1" for v
    using Cons.prems[of v] by (simp split: if_splits)
  then have d: "distinct (map f xs)" by (rule Cons.IH)
  have "f x \<notin> f ` set xs"
  proof
    assume "f x \<in> f ` set xs"
    then obtain y where "y \<in> set xs" "f y = f x" by auto
    then have "filter (\<lambda>b. f b = f x) xs \<noteq> []" by (auto simp: filter_empty_conv)
    then have "0 < length (filter (\<lambda>b. f b = f x) xs)" by simp
    with Cons.prems[of "f x"] show False by simp
  qed
  with d show ?case by simp
qed

lemma valid_hours_ascending:
  assumes "\<forall>r \<in> set data. timed r \<longrightarrow> hourOf js r \<noteq> None"
  shows "sorted_wrt (\<lambda>a b. \<exists>x y. hour a = Some x \<and> hour b = Some y \<and> x < y)
           (processActivityData js data)"
proof -
  let ?acc = "hourlyData js data"
  let ?out = "processActivityData js data"
  let ?key = "\<lambda>b. the (hour b)"
  have some: "\<forall>b \<in> set ?acc. \<exists>x. hour b = Some x"
  proof
    fix b assume "b \<in> set ?acc"
    then have "hour b \<in> set (map hour ?acc)" by simp
    then have "hour b \<in> hourOf js ` {r \<in> set data. timed r}" by (simp only: hours_of_buckets)
    with assms show "\<exists>x. hour b = Some x" by auto
  qed
  have "length (filter (\<lambda>b. hour b = v) ?acc) \<le> 1" for v
  proof (cases v)
    case None
    have "filter (\<lambda>b. hour b = None) ?acc = []" using some by (auto simp: filter_empty_conv)
    then show ?thesis by (simp add: None)
  next
    case (Some h)
    then show ?thesis by (simp add: hourly_buckets)
  qed
  then have "distinct (map hour ?acc)" by (rule distinct_by_filter)
  then have "distinct (map hour ?out)"
    by (simp add: processActivityData_def distinct_map_js_sort)
  have someout: "\<forall>b \<in> set ?out. \<exists>x. hour b = Some x"
    using some by (simp add: processActivityData_def set_js_sort)
  have dk: "distinct (map ?key ?out)"
  proof -
    have inj: "inj_on the (set (map hour ?out))"
    proof (rule inj_onI)
      fix u v
      assume u: "u \<in> set (map hour ?out)" and v: "v \<in> set (map hour ?out)"
        and e: "the u = the v"
      from u obtain a where "a \<in> set ?out" "u = hour a" by auto
      with someout obtain x where x: "u = Some x" by auto
      from v obtain b where "b \<in> set ?out" "v = hour b" by auto
      with someout obtain y where y: "v = Some y" by auto
      from e x y show "u = v" by simp
    qed
    have "distinct (map the (map hour ?out))"
      by (subst distinct_map) (rule conjI[OF \<open>distinct (map hour ?out)\<close> inj])
    then show ?thesis by (simp add: comp_def)
  qed
  have "\<forall>a \<in> set ?acc. \<forall>b \<in> set ?acc.
          js_lt (Num 0) (hour_diff (hour a) (hour b)) \<longleftrightarrow> ?key b < ?key a"
  proof (intro ballI)
    fix a b assume "a \<in> set ?acc" and "b \<in> set ?acc"
    with some obtain x y where "hour a = Some x" and "hour b = Some y" by blast
    then show "js_lt (Num 0) (hour_diff (hour a) (hour b)) \<longleftrightarrow> ?key b < ?key a"
      by (simp add: hour_diff_sign)
  qed
  then have "sorted (map ?key ?out)"
    unfolding processActivityData_def by (rule sorted_js_sort)
  with dk have "sorted_wrt (<) (map ?key ?out)" by (simp add: strict_sorted_iff)
  then have "sorted_wrt (\<lambda>a b. ?key a < ?key b) ?out" by (simp add: sorted_wrt_map)
  then show ?thesis
  proof (rule sorted_wrt_mono_rel[rotated])
    fix a b
    assume "a \<in> set ?out" and "b \<in> set ?out" and lt: "?key a < ?key b"
    with someout obtain x y where "hour a = Some x" and "hour b = Some y" by blast
    with lt show "\<exists>x y. hour a = Some x \<and> hour b = Some y \<and> x < y" by simp
  qed
qed

section \<open>The compliance rate of an hourly bucket\<close>

text \<open>
  Claim C1, evaluated on the code. \<open>complianceRate\<close> is computed once, when the first
  record of an hour creates the bucket, from that record alone; the branch that adds a
  later record to the bucket updates the four counters and leaves the rate as it was. Two
  activities in the ninth hour, the first on time and the second delayed, neither with a
  location accuracy, end in the counts \<open>total = 2\<close>, \<open>onTime = 1\<close>, \<open>locationAccurate = 0\<close>,
  for which the claimed rate is \<open>round(100 * 1 / 4) = 25\<close>; the bucket still holds the 50 of
  its first record.
\<close>

theorem stale_compliance_rate:
  "processActivityData sampleBuiltins [onTimeAtNine, delayedAtNine] =
     [\<lparr>hour = Some 9, total = 2, onTime = 1, locationAccurate = 0, delayed = 1,
       complianceRate = Num 50\<rparr>]
   \<and> spec_complianceRate 1 0 2 = 25"
proof -
  have "hourlyData sampleBuiltins [onTimeAtNine, delayedAtNine] =
     [\<lparr>hour = Some 9, total = 2, onTime = 1, locationAccurate = 0, delayed = 1,
       complianceRate = Num 50\<rparr>]"
    by (simp add: hourlyData_def hourlyStep_def onTimeAtNine_def delayedAtNine_def
          sampleBuiltins_def isoHours_nine_fifteen isoHours_nine_fortyfive
          activityMetrics_def newBucket_def strict_eq_def num_def percent_1_2
          del: js_div.simps js_mul.simps js_round.simps)
  then show ?thesis
    by (simp add: processActivityData_def js_sort_def spec_complianceRate_def spec_round_def
          floor_numeral_quotient)
qed

section \<open>The compliance evaluator on empty input\<close>

text \<open>
  Claim C2, evaluated on the code. With no location profile and no guard profile the two
  counters stay \<open>0\<close>, and \<open>Math.round((0 / 0) * 100)\<close> is NaN: the returned overall value
  is not \<open>0\<close>.
\<close>

theorem calculateComplianceMetrics_empty_overall:
  "overall (calculateComplianceMetrics activities [] []) = NaN"
  by (simp add: calculateComplianceMetrics_def num_def)

section \<open>The overall compliance of a day without rows\<close>

text \<open>
  Claim C3, evaluated on the code. When no row of either report falls on the selected date,
  all three aggregations return empty lists and the overall compliance value of the
  reload is NaN, which is not a number from 0 to 100. This is the division of claim C2. The
  lemmas \<open>guard_rates_in_range\<close>, \<open>location_rates_in_range\<close> and \<open>overall_in_range\<close> above
  show that every other rate, and the overall value once one profile exists, is a whole
  number from 0 to 100.
\<close>

theorem no_rows_overall_NaN:
  "loadData js selectedDate [] [] =
     Inr \<lparr>activityData = [], locationCoverage = [], guardStats = [],
          compliance = \<lparr>overall = NaN, byLocation = [], byGuard = []\<rparr>\<rparr>"
  by (simp add: loadData_def dateFilter_def processActivityData_def hourlyData_def js_sort_def
        processLocationCoverage_def groupLocations_def processGuardData_def seedGuards_def
        object_values_def calculateComplianceMetrics_def num_def)

section \<open>The performance score of a guard\<close>

text \<open>
  Claim C4, as the code has it. For every guard profile that \<open>processGuardData\<close> returns,
  the counters are the counts over the attendance rows and the activity rows of that
  guard, and \<open>performanceScore\<close> is \<open>Math.round(attendanceScore + activityScore +
  coverageScore)\<close> with \<open>attendanceScore = (onTimeShifts / totalShifts) * 30\<close> (0 without
  shifts), \<open>activityScore = ((onTimeActivities + locationAccurateActivities) / (2 *
  totalActivities)) * 40\<close> (0 without activities) and \<open>coverageScore = min((places / 3) *
  30, 30)\<close>, every quotient, product and sum rounded to binary64. The two attendance rows
  of the example give shifts 2, 1 on time, 1 late, two places and the score 35.
\<close>

theorem performance_score_computed:
  "(processGuardData js acts atts = Inr out \<longrightarrow>
      (\<forall>p \<in> set out.
         shifts_total p = length (rowsOf guardKey (guard_id p) atts)
         \<and> shifts_onTime p = length (onTimeRows (rowsOf guardKey (guard_id p) atts))
         \<and> activities_total p = length (rowsOf activityKey (guard_id p) acts)
         \<and> activities_onTime p = length (onTimeActivities (rowsOf activityKey (guard_id p) acts))
         \<and> activities_locationAccurate p =
             length (filter (guardLocationAccurate js) (rowsOf activityKey (guard_id p) acts))
         \<and> coverage p = postsCovered [] (rowsOf guardKey (guard_id p) atts)
         \<and> performanceScore p =
             js_round
               (js_add
                  (js_add
                     (if shifts_total p > 0
                      then js_mul (js_div (num (shifts_onTime p)) (num (shifts_total p))) (Num 30)
                      else Num 0)
                     (if activities_total p > 0
                      then js_mul (js_div (num (activities_onTime p + activities_locationAccurate p))
                                          (num (2 * activities_total p))) (Num 40)
                      else Num 0))
                  (js_min (js_mul (js_div (num (length (coverage p))) (Num 3)) (Num 30)) (Num 30)))))
   \<and> processGuardData js [] exampleShifts = Inr [exampleGuardProfile]"
proof (intro conjI impI ballI)
  fix p
  assume out: "processGuardData js acts atts = Inr out" and "p \<in> set out"
  from guard_profile_source[OF this] obtain k
    where p: "p = guardProfileOf (guardTally js acts atts k)" by blast
  have k: "guard_id p = k" by (simp add: p guardProfileOf_def guardTally_def)
  show "shifts_total p = length (rowsOf guardKey (guard_id p) atts)"
    unfolding k by (simp add: p guardProfileOf_def guardTally_def)
  show "shifts_onTime p = length (onTimeRows (rowsOf guardKey (guard_id p) atts))"
    unfolding k by (simp add: p guardProfileOf_def guardTally_def)
  show "activities_total p = length (rowsOf activityKey (guard_id p) acts)"
    unfolding k by (simp add: p guardProfileOf_def guardTally_def)
  show "activities_onTime p = length (onTimeActivities (rowsOf activityKey (guard_id p) acts))"
    unfolding k by (simp add: p guardProfileOf_def guardTally_def)
  show "activities_locationAccurate p =
          length (filter (guardLocationAccurate js) (rowsOf activityKey (guard_id p) acts))"
    unfolding k by (simp add: p guardProfileOf_def guardTally_def)
  show "coverage p = postsCovered [] (rowsOf guardKey (guard_id p) atts)"
    unfolding k by (simp add: p guardProfileOf_def guardTally_def)
  show "performanceScore p =
          js_round
            (js_add
               (js_add
                  (if shifts_total p > 0
                   then js_mul (js_div (num (shifts_onTime p)) (num (shifts_total p))) (Num 30)
                   else Num 0)
                  (if activities_total p > 0
                   then js_mul (js_div (num (activities_onTime p + activities_locationAccurate p))
                                       (num (2 * activities_total p))) (Num 40)
                   else Num 0))
               (js_min (js_mul (js_div (num (length (coverage p))) (Num 3)) (Num 30)) (Num 30)))"
    by (simp add: p guardProfileOf_def attendanceScore_def activityScore_def coverageScore_def)
next
  show "processGuardData js [] exampleShifts = Inr [exampleGuardProfile]"
    by (rule exampleShifts_result)
qed

text \<open>The theorem at the example rows.\<close>

theorem performance_score_computed_witness:
  "processGuardData sampleBuiltins [] exampleShifts = Inr [exampleGuardProfile]
   \<and> guard_id exampleGuardProfile = ''G1''
   \<and> length (rowsOf guardKey ''G1'' exampleShifts) = 2
   \<and> length (onTimeRows (rowsOf guardKey ''G1'' exampleShifts)) = 1
   \<and> shifts_late exampleGuardProfile = 1
   \<and> length (rowsOf activityKey ''G1'' []) = 0
   \<and> postsCovered [] (rowsOf guardKey ''G1'' exampleShifts) = [Some ''Gate A'', Some ''Gate B'']
   \<and> performanceScore exampleGuardProfile = Num 35"
proof -
  have r: "processGuardData sampleBuiltins [] exampleShifts = Inr [exampleGuardProfile]"
    by (rule exampleShifts_result)
  have v: "guard_id exampleGuardProfile = ''G1''" "shifts_total exampleGuardProfile = 2"
    "shifts_onTime exampleGuardProfile = 1" "shifts_late exampleGuardProfile = 1"
    "activities_total exampleGuardProfile = 0"
    "coverage exampleGuardProfile = [Some ''Gate A'', Some ''Gate B'']"
    "performanceScore exampleGuardProfile = Num 35"
    by (simp_all add: exampleGuardProfile_def)
  from performance_score_computed[of sampleBuiltins "[]" exampleShifts "[exampleGuardProfile]"] r
  have "shifts_total exampleGuardProfile
          = length (rowsOf guardKey (guard_id exampleGuardProfile) exampleShifts)
        \<and> shifts_onTime exampleGuardProfile
          = length (onTimeRows (rowsOf guardKey (guard_id exampleGuardProfile) exampleShifts))
        \<and> activities_total exampleGuardProfile
          = length (rowsOf activityKey (guard_id exampleGuardProfile) [])
        \<and> coverage exampleGuardProfile
          = postsCovered [] (rowsOf guardKey (guard_id exampleGuardProfile) exampleShifts)"
    by simp
  then have "2 = length (rowsOf guardKey ''G1'' exampleShifts)
        \<and> 1 = length (onTimeRows (rowsOf guardKey ''G1'' exampleShifts))
        \<and> 0 = length (rowsOf activityKey ''G1'' [])
        \<and> [Some ''Gate A'', Some ''Gate B''] = postsCovered [] (rowsOf guardKey ''G1'' exampleShifts)"
    by (simp only: v)
  with r v show ?thesis by simp
qed

text \<open>
  The score is not always the exact rounding of claim C4 as stated. A guard with 15 of 28
  shifts on time, 14 activities of which one is on time and none is location-accurate,
  and one place has the exact sum \<open>450/28 + 40/28 + 10 = 27.5\<close>, which rounds to 28. In
  binary64 the three summands add up to \<open>27.499999999999996\<close>, and the score is 27.
\<close>

theorem performance_tie_counterexample:
  "processGuardData sampleBuiltins busyActivities busyShifts =
     Inr [\<lparr>guard_id = ''G1'', name = ''G1'', shifts_total = 28, shifts_onTime = 15,
           shifts_late = 13, activities_total = 14, activities_onTime = 1,
           activities_locationAccurate = 0, coverage = [Some ''Gate A''], shiftHours = Num 0,
           attendanceRate = Num 54, activityComplianceRate = Num 4,
           coverageCount = 1, performanceScore = Num 27\<rparr>]
   \<and> spec_performanceScore 15 28 1 0 14 1 = 28"
  by (simp add: busy_result spec_performanceScore_def spec_round_def)

section \<open>The order of the hourly buckets\<close>

text \<open>
  Claim C5, evaluated on the code. Two activities with a timestamp that is present and is
  not a date yield two buckets, both with the hour NaN: the hours of the output are not
  strictly ascending. This is the missing check of claim C6. The lemma
  \<open>valid_hours_ascending\<close> above shows that the output is strictly ascending by hour, without
  repetition, whenever every timestamp that is present denotes a date.
\<close>

theorem invalid_timestamps_repeat_hour:
  "processActivityData sampleBuiltins [invalidTime, invalidTime] =
     [\<lparr>hour = None, total = 1, onTime = 1, locationAccurate = 0, delayed = 0,
       complianceRate = Num 50\<rparr>,
      \<lparr>hour = None, total = 1, onTime = 1, locationAccurate = 0, delayed = 0,
       complianceRate = Num 50\<rparr>]"
proof -
  have "hourlyData sampleBuiltins [invalidTime, invalidTime] =
     [\<lparr>hour = None, total = 1, onTime = 1, locationAccurate = 0, delayed = 0,
       complianceRate = Num 50\<rparr>,
      \<lparr>hour = None, total = 1, onTime = 1, locationAccurate = 0, delayed = 0,
       complianceRate = Num 50\<rparr>]"
    by (simp add: hourlyData_def hourlyStep_def invalidTime_def
          sampleBuiltins_def isoHours_hour_25
          activityMetrics_def newBucket_def strict_eq_def num_def percent_1_2
          del: js_div.simps js_mul.simps js_round.simps)
  then show ?thesis
    by (simp add: processActivityData_def js_sort_def hour_diff_def)
qed

section \<open>Activities without a usable timestamp\<close>

text \<open>
  Claim C6, evaluated on the code. The aggregator skips a record whose \<open>Date/Time\<close> is
  absent or empty, and no other: a record whose timestamp is present and is not a date is
  not skipped. Its hour is NaN, which equals no hour of an existing bucket, and so the
  record opens a bucket of its own. The lemmas \<open>missing_timestamps_skipped\<close> and
  \<open>valid_hour_bucket\<close> above show the two parts of the claim that hold.
\<close>

theorem invalid_timestamp_makes_bucket:
  "processActivityData sampleBuiltins [invalidTime] =
     [\<lparr>hour = None, total = 1, onTime = 1, locationAccurate = 0, delayed = 0,
       complianceRate = Num 50\<rparr>]"
proof -
  have "hourlyData sampleBuiltins [invalidTime] =
     [\<lparr>hour = None, total = 1, onTime = 1, locationAccurate = 0, delayed = 0,
       complianceRate = Num 50\<rparr>]"
    by (simp add: hourlyData_def hourlyStep_def invalidTime_def
          sampleBuiltins_def isoHours_hour_25
          activityMetrics_def newBucket_def strict_eq_def num_def percent_1_2
          del: js_div.simps js_mul.simps js_round.simps)
  then show ?thesis
    by (simp add: processActivityData_def js_sort_def)
qed

section \<open>The tallies and the punctuality rate of a location\<close>

text \<open>
  Claim C7, as the code has it. For every location profile that \<open>processLocationCoverage\<close>
  returns: \<open>total\<close> counts every row with that post name; \<open>covered\<close>, \<open>onTime\<close> and the
  duty hours are taken over those of these rows that also carry a guard's display name;
  and \<open>punctualityRate\<close> is \<open>Math.round((onTime / covered) * 100)\<close> when \<open>covered > 0\<close>, and
  \<open>0\<close> otherwise, the quotient and the product each rounded to binary64. The two rows of
  the example, one with guard G1 on time and one with the post only, give total 2,
  covered 1, on time 1, coverage rate 50 and punctuality rate 100.
\<close>

theorem location_tallies_and_punctuality:
  "(processLocationCoverage js data = Inr out \<longrightarrow>
      (\<forall>p \<in> set out.
         lshifts_total p = length (atPost (location p) data)
         \<and> lshifts_covered p = length (staffed (atPost (location p) data))
         \<and> lshifts_onTime p = length (onTimeRows (staffed (atPost (location p) data)))
         \<and> lshiftHours p = dutyHours js (Num 0) (staffed (atPost (location p) data))
         \<and> punctualityRate p =
             (if lshifts_covered p > 0
              then js_round (js_mul (js_div (num (lshifts_onTime p)) (num (lshifts_covered p)))
                                    (Num 100))
              else Num 0)))
   \<and> processLocationCoverage js exampleGateA = Inr [exampleGateAProfile]"
proof (intro conjI impI ballI)
  fix p
  assume out: "processLocationCoverage js data = Inr out" and "p \<in> set out"
  from location_profile_source[OF this] obtain l
    where p: "p = locationProfileOf (locationTally js data l)" by blast
  have l: "location p = l" by (simp add: p locationProfileOf_def locationTally_def)
  show "lshifts_total p = length (atPost (location p) data)"
    unfolding l by (simp add: p locationProfileOf_def locationTally_def)
  show "lshifts_covered p = length (staffed (atPost (location p) data))"
    unfolding l by (simp add: p locationProfileOf_def locationTally_def)
  show "lshifts_onTime p = length (onTimeRows (staffed (atPost (location p) data)))"
    unfolding l by (simp add: p locationProfileOf_def locationTally_def)
  show "lshiftHours p = dutyHours js (Num 0) (staffed (atPost (location p) data))"
    unfolding l by (simp add: p locationProfileOf_def locationTally_def)
  show "punctualityRate p =
          (if lshifts_covered p > 0
           then js_round (js_mul (js_div (num (lshifts_onTime p)) (num (lshifts_covered p)))
                                 (Num 100))
           else Num 0)"
    by (simp add: p locationProfileOf_def)
next
  show "processLocationCoverage js exampleGateA = Inr [exampleGateAProfile]"
    by (rule exampleGateA_result)
qed

text \<open>The theorem at the example rows.\<close>

theorem location_tallies_and_punctuality_witness:
  "processLocationCoverage sampleBuiltins exampleGateA = Inr [exampleGateAProfile]
   \<and> location exampleGateAProfile = ''Gate A''
   \<and> length (atPost ''Gate A'' exampleGateA) = 2
   \<and> length (staffed (atPost ''Gate A'' exampleGateA)) = 1
   \<and> length (onTimeRows (staffed (atPost ''Gate A'' exampleGateA))) = 1
   \<and> dutyHours sampleBuiltins (Num 0) (staffed (atPost ''Gate A'' exampleGateA)) = Num 0
   \<and> punctualityRate exampleGateAProfile = Num 100
   \<and> coverageRate exampleGateAProfile = Num 50"
proof -
  have r: "processLocationCoverage sampleBuiltins exampleGateA = Inr [exampleGateAProfile]"
    by (rule exampleGateA_result)
  have v: "location exampleGateAProfile = ''Gate A''" "lshifts_total exampleGateAProfile = 2"
    "lshifts_covered exampleGateAProfile = 1" "lshifts_onTime exampleGateAProfile = 1"
    "lshiftHours exampleGateAProfile = Num 0" "punctualityRate exampleGateAProfile = Num 100"
    "coverageRate exampleGateAProfile = Num 50"
    by (simp_all add: exampleGateAProfile_def)
  from location_tallies_and_punctuality[of sampleBuiltins exampleGateA "[exampleGateAProfile]"] r
  have "lshifts_total exampleGateAProfile = length (atPost (location exampleGateAProfile) exampleGateA)
        \<and> lshifts_covered exampleGateAProfile
            = length (staffed (atPost (location exampleGateAProfile) exampleGateA))
        \<and> lshifts_onTime exampleGateAProfile
            = length (onTimeRows (staffed (atPost (location exampleGateAProfile) exampleGateA)))
        \<and> lshiftHours exampleGateAProfile
            = dutyHours sampleBuiltins (Num 0) (staffed (atPost (location exampleGateAProfile) exampleGateA))"
    by simp
  then have "2 = length (atPost ''Gate A'' exampleGateA)
        \<and> 1 = length (staffed (atPost ''Gate A'' exampleGateA))
        \<and> 1 = length (onTimeRows (staffed (atPost ''Gate A'' exampleGateA)))
        \<and> Num 0 = dutyHours sampleBuiltins (Num 0) (staffed (atPost ''Gate A'' exampleGateA))"
    by (simp only: v)
  with r v show ?thesis by simp
qed

text \<open>
  The rate is not always the exact \<open>round(100 * onTime / covered)\<close> of claim C7 as stated.
  With 23 of 40 covered shifts on time the exact value is 57.5, which rounds to 58. In
  binary64, \<open>23 / 40\<close> is \<open>2589569785738035 / 2\<^sup>5\<^sup>2\<close>, a little below 0.575; times 100 this
  rounds to \<open>8092405580431359 / 2\<^sup>4\<^sup>7\<close>, a little below 57.5; and \<open>Math.round\<close> gives 57.
\<close>

theorem punctuality_tie_counterexample:
  "processLocationCoverage sampleBuiltins fortyShifts =
     Inr [\<lparr>location = ''Gate A'', lshifts_total = 40, lshifts_covered = 40, lshifts_onTime = 23,
           guards = [''G1''], lshiftHours = Num 0,
           coverageRate = Num 100, punctualityRate = Num 57,
           guardCount = None, averageShiftHours = Num 0\<rparr>]
   \<and> spec_punctualityRate 23 40 = 58"
  by (simp add: forty_result spec_punctualityRate_def spec_round_def)

section \<open>Activities of guards without attendance\<close>

text \<open>
  Claim C8, evaluated on the code. The test \<open>!guardMetrics[guardId]\<close> that skips the
  activity of an unseeded guard reads an object literal, which answers the names of the
  members of \<open>Object.prototype\<close> as well. An activity whose service number is
  \<open>constructor\<close> is therefore not skipped: \<open>guard.activities\<close> is \<open>undefined\<close>, the
  increment raises a \<open>TypeError\<close>, and no profile is returned at all, where without this
  activity the profile of G1 is returned. The lemma \<open>unseeded_activities_ignored\<close> above
  shows the claim for every other service number.
\<close>

theorem inherited_service_number_throws:
  "processGuardData js [strangerActivity] exampleShifts = Inl TypeError
   \<and> processGuardData js [] exampleShifts = Inr [exampleGuardProfile]"
proof
  have "activityStep js [(''G1'', exampleGuard)] strangerActivity = Inl TypeError"
    by (simp add: activityStep_def strangerActivity_def js_get_def objectPrototypeKeys_def)
  then show "processGuardData js [strangerActivity] exampleShifts = Inl TypeError"
    by (simp add: processGuardData_def exampleShifts_seeded)
  show "processGuardData js [] exampleShifts = Inr [exampleGuardProfile]"
    by (rule exampleShifts_result)
qed

section \<open>Every location group has a shift\<close>

text \<open>
  Claim C9. Every location profile that \<open>processLocationCoverage\<close> returns stands for a
  post name that at least one attendance row carries: its total is the number of these
  rows, hence at least one, its covered count does not exceed the total, and so the
  division in \<open>coverageRate\<close> is a division by a positive number and the rate is a whole
  number from 0 to 100.
\<close>

theorem location_total_positive:
  assumes "processLocationCoverage js data = Inr out" and "p \<in> set out"
  shows "atPost (location p) data \<noteq> []
         \<and> lshifts_total p = length (atPost (location p) data)
         \<and> 1 \<le> lshifts_total p
         \<and> lshifts_covered p \<le> lshifts_total p
         \<and> (\<exists>t. coverageRate p = Num (of_nat t) \<and> t \<le> 100)"
proof -
  from location_profile_source[OF assms] obtain l
    where l: "atPost l data \<noteq> []" and p: "p = locationProfileOf (locationTally js data l)"
    by blast
  have loc: "location p = l" by (simp add: p locationProfileOf_def locationTally_def)
  have tot: "lshifts_total p = length (atPost l data)"
    by (simp add: p locationProfileOf_def locationTally_def)
  have cov: "lshifts_covered p = length (staffed (atPost l data))"
    by (simp add: p locationProfileOf_def locationTally_def)
  have le: "lshifts_covered p \<le> lshifts_total p" by (simp add: tot cov staffed_def)
  have pos: "0 < lshifts_total p" using l by (simp add: tot)
  then have one: "1 \<le> lshifts_total p" by simp
  have "coverageRate p = js_round (js_mul (js_div (num (lshifts_covered p)) (num (lshifts_total p))) (Num 100))"
    by (simp add: p locationProfileOf_def)
  with percentage_range[OF le pos] have "\<exists>t. coverageRate p = Num (of_nat t) \<and> t \<le> 100" by simp
  with l loc tot le one show ?thesis by simp
qed

theorem location_total_positive_witness:
  "processLocationCoverage sampleBuiltins exampleGateA = Inr [exampleGateAProfile]
   \<and> atPost ''Gate A'' exampleGateA = exampleGateA
   \<and> lshifts_total exampleGateAProfile = 2
   \<and> lshifts_covered exampleGateAProfile = 1
   \<and> coverageRate exampleGateAProfile = Num 50"
  using location_total_positive[OF exampleGateA_result[of sampleBuiltins], of exampleGateAProfile]
  by (simp add: exampleGateA_result)
     (simp add: exampleGateAProfile_def exampleGateA_def atPost_def)

section \<open>The shift counters of a guard add up\<close>

text \<open>
  Claim C10. In every guard object the attendance pass has built, after any sequence of
  attendance rows, and in every guard profile that \<open>processGuardData\<close> returns,
  \<open>shifts.onTime + shifts.late = shifts.total\<close>. One attendance row that seeds or updates a
  profile adds one to \<open>total\<close> and one to exactly one of \<open>onTime\<close> and \<open>late\<close>.
\<close>

theorem shift_counters_add_up:
  "(seedGuards js atts = Inr seeded \<longrightarrow>
      (\<forall>(k, g) \<in> set seeded. shifts_onTime g + shifts_late g = shifts_total g))
   \<and> (processGuardData js acts atts = Inr out \<longrightarrow>
      (\<forall>p \<in> set out. shifts_onTime p + shifts_late p = shifts_total p))
   \<and> shifts_total (recordShift js r g) = shifts_total g + 1
   \<and> ((shifts_onTime (recordShift js r g) = shifts_onTime g + 1
        \<and> shifts_late (recordShift js r g) = shifts_late g)
      \<or> (shifts_onTime (recordShift js r g) = shifts_onTime g
        \<and> shifts_late (recordShift js r g) = shifts_late g + 1))"
proof (intro conjI impI)
  assume s: "seedGuards js atts = Inr seeded"
  show "\<forall>(k, g) \<in> set seeded. shifts_onTime g + shifts_late g = shifts_total g"
    by (subst seedGuards_state[OF s]) (auto simp: guardTally_def length_onTime_late)
next
  assume out: "processGuardData js acts atts = Inr out"
  show "\<forall>p \<in> set out. shifts_onTime p + shifts_late p = shifts_total p"
  proof
    fix p assume "p \<in> set out"
    from guard_profile_source[OF out this] obtain k
      where p: "p = guardProfileOf (guardTally js acts atts k)" by blast
    show "shifts_onTime p + shifts_late p = shifts_total p"
      by (simp add: p guardProfileOf_def guardTally_def length_onTime_late)
  qed
next
  show "shifts_total (recordShift js r g) = shifts_total g + 1"
    by (simp add: recordShift_def)
next
  show "(shifts_onTime (recordShift js r g) = shifts_onTime g + 1
          \<and> shifts_late (recordShift js r g) = shifts_late g)
        \<or> (shifts_onTime (recordShift js r g) = shifts_onTime g
          \<and> shifts_late (recordShift js r g) = shifts_late g + 1)"
    by (simp add: recordShift_def)
qed

theorem shift_counters_add_up_witness:
  "seedGuards sampleBuiltins exampleShifts = Inr [(''G1'', exampleGuard)]
   \<and> processGuardData sampleBuiltins [] exampleShifts = Inr [exampleGuardProfile]
   \<and> shifts_onTime exampleGuard + shifts_late exampleGuard = shifts_total exampleGuard
   \<and> shifts_onTime exampleGuardProfile + shifts_late exampleGuardProfile
       = shifts_total exampleGuardProfile
   \<and> shifts_total (recordShift sampleBuiltins (shiftRow ''G1'' ''Gate B'' ''Late'')
         (newGuard ''G1'' ''G1'')) = 1
   \<and> shifts_late (recordShift sampleBuiltins (shiftRow ''G1'' ''Gate B'' ''Late'')
         (newGuard ''G1'' ''G1'')) = 1"
  using shift_counters_add_up[of sampleBuiltins exampleShifts "[(''G1'', exampleGuard)]" "[]"
          "[exampleGuardProfile]" "shiftRow ''G1'' ''Gate B'' ''Late''" "newGuard ''G1'' ''G1''"]
  by (simp add: exampleShifts_seeded exampleShifts_result)
     (simp add: newGuard_def recordShift_def)


end
